theory Spec2Isabelle
  imports Main "HOL-Library.Multiset" "HOL-Library.Product_Lexorder"
begin

text \<open>
  The identifier redactor of the repository: \<open>replace_identifiers\<close> (\<open>filter_ID.py\<close>,
  \<open>full_anon.py\<close>) and \<open>reemplazar_identificadores\<close> (\<open>text_filter_ID.py\<close>,
  \<open>dataset_filter_ID.py\<close>). Each collects the matches of a catalog of patterns, sorts
  them, and replaces a non-overlapping selection by the placeholder \<open><ID>\<close>.
\<close>

section \<open>Texts, spans and the Python list operations the redactor uses\<close>

text \<open>
  A Python \<open>str\<close> is a sequence of Unicode code points; \<open>len\<close> counts code points.
  A text is modelled as the list of its code points, each a natural number.
  A span is the pair \<open>(start, end)\<close> returned by \<open>m.span()\<close>: offsets are
  non-negative, so they are natural numbers here.
\<close>

type_synonym codepoint = nat
type_synonym str = "codepoint list"
type_synonym span = "nat \<times> nat"

definition codepoints :: "string \<Rightarrow> str" where
  "codepoints s = map of_char s"

definition SPACE :: codepoint where
  "SPACE = 32"

definition default_label :: str where
  "default_label = codepoints ''<ID>''"

text \<open>\<open>label.ljust(width)\<close>: pad on the right with spaces up to \<open>width\<close>; a string that is
  already that long (or a width that is not positive) is returned as it is.\<close>

definition ljust :: "str \<Rightarrow> nat \<Rightarrow> str" where
  "ljust label width = label @ replicate (width - length label) SPACE"

text \<open>\<open>xs[start:end]\<close> for non-negative bounds: Python clamps both to \<open>len(xs)\<close>.\<close>

definition slice :: "'a list \<Rightarrow> nat \<Rightarrow> nat \<Rightarrow> 'a list" where
  "slice xs start end = take (end - start) (drop start xs)"

text \<open>\<open>xs[:n]\<close> for an integer \<open>n\<close>: a negative \<open>n\<close> counts from the end.\<close>

definition prefix_upto :: "'a list \<Rightarrow> int \<Rightarrow> 'a list" where
  "prefix_upto xs n = (if 0 \<le> n then take (nat n) xs else take (nat (int (length xs) + n)) xs)"

text \<open>\<open>any(bs)\<close> on a list of booleans.\<close>

definition any :: "bool list \<Rightarrow> bool" where
  "any bs = list_ex (\<lambda>b. b) bs"

text \<open>\<open>xs[start:end] = repl\<close>: the slice is replaced by \<open>repl\<close>, whatever its length;
  when \<open>end < start\<close> Python inserts at \<open>start\<close>.\<close>

definition assign_slice :: "'a list \<Rightarrow> nat \<Rightarrow> nat \<Rightarrow> 'a list \<Rightarrow> 'a list" where
  "assign_slice xs start end repl = take start xs @ repl @ drop (max start end) xs"

text \<open>\<open>for i in range(start, end): occupied[i] = True\<close>. An index beyond the list raises
  IndexError, which is the value \<open>None\<close>.\<close>

definition mark :: "bool list \<Rightarrow> nat \<Rightarrow> nat \<Rightarrow> bool list option" where
  "mark occupied start end =
     (if start < end \<and> length occupied < end then None
      else Some (fold (\<lambda>i occ. occ[i := True]) [start..<end] occupied))"

text \<open>The sort key \<open>lambda s: (-(s[1] - s[0]), s[0])\<close>; Python compares the tuples
  lexicographically, and \<open>list.sort\<close> is stable, as \<open>sort_key\<close> is.\<close>

definition span_key :: "span \<Rightarrow> int \<times> int" where
  "span_key s = (- (int (snd s) - int (fst s)), int (fst s))"

section \<open>The redactor of \<open>filter_ID.py\<close> and \<open>full_anon.py\<close>\<close>

text \<open>
  One iteration of \<open>for start, end in spans\<close> in \<open>replace_identifiers\<close>: the state is
  the pair \<open>(chars, occupied)\<close>. The replacement \<open>label.ljust(end - start)\<close> is written
  without truncation.
\<close>

fun replace_step :: "str \<Rightarrow> str \<times> bool list \<Rightarrow> span \<Rightarrow> (str \<times> bool list) option" where
  "replace_step label (chars, occupied) (start, end) =
     (if any (slice occupied start end) then Some (chars, occupied)
      else (case mark occupied start end of
              None \<Rightarrow> None
            | Some occupied' \<Rightarrow>
                Some (assign_slice chars start end (ljust label (end - start)), occupied')))"

fun replace_loop :: "str \<Rightarrow> str \<times> bool list \<Rightarrow> span list \<Rightarrow> (str \<times> bool list) option" where
  "replace_loop label st [] = Some st"
| "replace_loop label st (sp # spans) =
     (case replace_step label st sp of
        None \<Rightarrow> None
      | Some st' \<Rightarrow> replace_loop label st' spans)"

text \<open>The body of \<open>replace_identifiers\<close> after the match collection, on the collected
  list \<open>spans\<close>.\<close>

definition replace_spans :: "str \<Rightarrow> str \<Rightarrow> span list \<Rightarrow> str option" where
  "replace_spans label text spans =
     (if spans = [] then Some text
      else map_option fst
             (replace_loop label (text, replicate (length text) False)
                (sort_key span_key spans)))"

section \<open>The redactor of \<open>text_filter_ID.py\<close> and \<open>dataset_filter_ID.py\<close>\<close>

text \<open>
  \<open>reemplazar_identificadores\<close> fixes the label to \<open><ID>\<close> and cuts the replacement to
  the span: \<open>resultado[start:end] = reemplazo[:end - start]\<close>.
\<close>

fun reemplazar_step :: "str \<times> bool list \<Rightarrow> span \<Rightarrow> (str \<times> bool list) option" where
  "reemplazar_step (resultado, ocupado) (start, end) =
     (if \<not> any (slice ocupado start end) then
        (case mark ocupado start end of
           None \<Rightarrow> None
         | Some ocupado' \<Rightarrow>
             Some (assign_slice resultado start end
                     (prefix_upto (ljust default_label (end - start)) (int end - int start)),
                   ocupado'))
      else Some (resultado, ocupado))"

fun reemplazar_loop :: "str \<times> bool list \<Rightarrow> span list \<Rightarrow> (str \<times> bool list) option" where
  "reemplazar_loop st [] = Some st"
| "reemplazar_loop st (sp # reemplazos) =
     (case reemplazar_step st sp of
        None \<Rightarrow> None
      | Some st' \<Rightarrow> reemplazar_loop st' reemplazos)"

definition reemplazar_spans :: "str \<Rightarrow> span list \<Rightarrow> str option" where
  "reemplazar_spans texto reemplazos =
     map_option fst
       (reemplazar_loop (texto, replicate (length texto) False)
          (sort_key span_key reemplazos))"

section \<open>The pattern engine\<close>

text \<open>
  The patterns are matched by Python's \<open>re\<close> module, a backtracking engine. What the
  engine knows about Unicode is taken as a parameter: which code points \<open>\d\<close>, \<open>\s\<close> and
  \<open>\w\<close> accept, and which code points are equal under \<open>re.IGNORECASE\<close>.
\<close>

record tables =
  is_digit :: "codepoint \<Rightarrow> bool"
  is_space :: "codepoint \<Rightarrow> bool"
  is_word :: "codepoint \<Rightarrow> bool"
  same_letter :: "codepoint \<Rightarrow> codepoint \<Rightarrow> bool"

text \<open>The members of a bracket class: a literal, a range \<open>a-z\<close>, \<open>\d\<close> or \<open>\s\<close>.\<close>

datatype item = Chr codepoint | Range codepoint codepoint | Digit | Space

text \<open>
  The pattern syntax the catalogs use: the assertion \<open>\b\<close>, one character of a class
  (a literal character is a class of one), concatenation, alternation \<open>r|s\<close>, and the
  greedy bounded repetition \<open>r{m,n}\<close> (with \<open>r?\<close> as \<open>r{0,1}\<close> and \<open>r{n}\<close> as \<open>r{n,n}\<close>).
\<close>

datatype regex =
    Eps
  | WordB
  | In "item list"
  | Cat regex regex
  | Alt regex regex
  | Repeat nat nat regex

fun in_item :: "tables \<Rightarrow> codepoint \<Rightarrow> item \<Rightarrow> bool" where
  "in_item T c (Chr x) = same_letter T c x"
| "in_item T c (Range lo hi) = list_ex (same_letter T c) [lo..<Suc hi]"
| "in_item T c Digit = is_digit T c"
| "in_item T c Space = is_space T c"

definition word_at :: "tables \<Rightarrow> str \<Rightarrow> nat \<Rightarrow> bool" where
  "word_at T text i = (i < length text \<and> is_word T (text ! i))"

text \<open>\<open>\b\<close> holds at \<open>i\<close> when exactly one of the code points before and at \<open>i\<close> is a
  word character; outside the text there is none.\<close>

definition boundary :: "tables \<Rightarrow> str \<Rightarrow> nat \<Rightarrow> bool" where
  "boundary T text i = ((0 < i \<and> word_at T text (i - 1)) \<noteq> word_at T text i)"

text \<open>
  Greedy repetition between \<open>m\<close> and \<open>n\<close> times of a pattern whose matches from a position
  are \<open>step\<close>: one more repetition is tried first, stopping here comes last.
\<close>

primrec rep_ends :: "(nat \<Rightarrow> nat list) \<Rightarrow> nat \<Rightarrow> nat \<Rightarrow> nat \<Rightarrow> nat list" where
  "rep_ends step m 0 i = (if m = 0 then [i] else [])"
| "rep_ends step m (Suc n) i =
     concat (map (rep_ends step (m - 1) n) (step i)) @ (if m = 0 then [i] else [])"

text \<open>
  \<open>ends T text r i\<close> lists the positions where a match of \<open>r\<close> that starts at \<open>i\<close> can
  end, in the order in which the backtracking engine tries them: the head is the match
  the engine reports.
\<close>

primrec ends :: "tables \<Rightarrow> str \<Rightarrow> regex \<Rightarrow> nat \<Rightarrow> nat list" where
  "ends T text Eps = (\<lambda>i. [i])"
| "ends T text WordB = (\<lambda>i. if boundary T text i then [i] else [])"
| "ends T text (In items) =
     (\<lambda>i. if i < length text \<and> list_ex (in_item T (text ! i)) items then [Suc i] else [])"
| "ends T text (Cat r s) = (\<lambda>i. concat (map (ends T text s) (ends T text r i)))"
| "ends T text (Alt r s) = (\<lambda>i. ends T text r i @ ends T text s i)"
| "ends T text (Repeat m n r) = rep_ends (ends T text r) m n"

text \<open>
  \<open>pat.finditer(text)\<close>, scanning from position \<open>i\<close>: the leftmost match is reported and
  the scan goes on where it ended, so the matches of one pattern do not overlap. The
  assertion \<open>\b\<close> still sees the code point before the position where the scan resumes.
  After an empty match the scan moves one position on; the patterns of the catalogs
  cannot match the empty string, each consumes at least four code points.
\<close>

function finditer :: "tables \<Rightarrow> regex \<Rightarrow> str \<Rightarrow> nat \<Rightarrow> span list" where
  "finditer T r text i =
     (if length text < i then []
      else (case ends T text r i of
              [] \<Rightarrow> finditer T r text (Suc i)
            | j # _ \<Rightarrow> (i, j) # finditer T r text (if i < j then j else Suc i)))"
  by pat_completeness auto
termination
  by (relation "measure (\<lambda>(T, r, text, i). Suc (length text) - i)") auto

declare finditer.simps [simp del]

text \<open>The match collection: \<open>for pat in PATTERNS: spans.extend(m.span() for m in
  pat.finditer(text))\<close>.\<close>

definition find_all :: "tables \<Rightarrow> regex list \<Rightarrow> str \<Rightarrow> span list" where
  "find_all T pats text = concat (map (\<lambda>pat. finditer T pat text 0) pats)"

subsection \<open>Writing the patterns\<close>

definition ch :: "char \<Rightarrow> item" where
  "ch c = Chr (of_char c)"

definition rng :: "char \<Rightarrow> char \<Rightarrow> item" where
  "rng a b = Range (of_char a) (of_char b)"

fun seq :: "regex list \<Rightarrow> regex" where
  "seq [] = Eps"
| "seq [r] = r"
| "seq (r # rs) = Cat r (seq rs)"

definition lit :: "string \<Rightarrow> regex" where
  "lit s = seq (map (\<lambda>c. In [ch c]) s)"

definition digit :: regex where
  "digit = In [Digit]"

definition times :: "nat \<Rightarrow> regex \<Rightarrow> regex" where
  "times n r = Repeat n n r"

definition opt :: "regex \<Rightarrow> regex" where
  "opt r = Repeat 0 1 r"

text \<open>The separators \<open>[-\s]\<close>, \<open>[.\s-]\<close> and \<open>[- ]\<close>.\<close>

definition dash_space :: regex where
  "dash_space = In [ch CHR ''-'', Space]"

definition dot_space_dash :: regex where
  "dot_space_dash = In [ch CHR ''.'', Space, ch CHR ''-'']"

definition dash_blank :: regex where
  "dash_blank = In [ch CHR ''-'', ch CHR '' '']"

definition A_Z :: item where
  "A_Z = rng CHR ''A'' CHR ''Z''"

definition digits :: "nat \<Rightarrow> nat \<Rightarrow> regex" where
  "digits m n = Repeat m n digit"

fun alts :: "regex list \<Rightarrow> regex" where
  "alts [] = In []"
| "alts [r] = r"
| "alts (r # rs) = Alt r (alts rs)"

section \<open>The catalog of \<open>filter_ID.py\<close> and \<open>full_anon.py\<close>\<close>

text \<open>
  \<open>RAW_PATTERNS\<close>, in the insertion order of the dictionary, each pattern written
  piece by piece as in its source string. \<open>Chr 209\<close> is the letter U+00D1 of
  \<open>[A-Z\<dots>&]\<close> in \<open>RFC_MEX\<close>.
\<close>

definition RAW_PATTERNS :: "(string \<times> regex) list" where
  "RAW_PATTERNS =
   [(''CI_NIC'', seq [WordB, times 3 digit, dash_space, times 6 digit, dash_space,
                      times 4 digit, opt (In [A_Z]), WordB]),
    (''RUC_NIC'', seq [WordB, times 3 digit, dash_space, times 6 digit, dash_space,
                       times 4 digit, opt (In [A_Z]), WordB]),
    (''CPF_BRA'', seq [WordB, times 3 digit, dot_space_dash, times 3 digit, dot_space_dash,
                       times 3 digit, dot_space_dash, times 2 digit, WordB]),
    (''DPI_GTM'', seq [WordB, times 4 digit, In [Space], times 5 digit, In [Space],
                       times 4 digit, WordB]),
    (''CURP_MEX'', seq [WordB, times 4 (In [A_Z]), opt (lit ''-''), times 6 digit,
                        opt (lit ''-''), In [ch CHR ''H'', ch CHR ''M''], times 5 (In [A_Z]),
                        In [A_Z, rng CHR ''0'' CHR ''9''], WordB]),
    (''RFC_MEX'', seq [WordB, Repeat 3 4 (In [A_Z, Chr 209, ch CHR ''&'']), opt (lit ''-''),
                       times 6 digit, opt (lit ''-''),
                       times 3 (In [A_Z, rng CHR ''0'' CHR ''9'']), WordB]),
    (''RIF_VEN'', seq [WordB, In [ch CHR ''J'', ch CHR ''G'', ch CHR ''V'', ch CHR ''E'',
                                  ch CHR ''P''],
                       dash_blank, times 8 digit, dash_blank, digit, WordB]),
    (''CI_BOL'', seq [WordB, digits 6 8, dash_space, times 2 (In [A_Z]), WordB]),
    (''RUC_PRY'', seq [WordB, digits 6 8, opt (In [A_Z]), dash_space, digit, WordB]),
    (''CUIT_ARG'', seq [WordB, times 2 digit, dot_space_dash, times 8 digit, dot_space_dash,
                        digit, WordB]),
    (''CI_URU'', seq [WordB, digits 1 2, dot_space_dash, times 3 digit, dot_space_dash,
                      times 3 digit, dot_space_dash, digit, WordB]),
    (''RUT_CHI'', seq [WordB, digits 1 2, dot_space_dash, times 3 digit, dot_space_dash,
                       times 3 digit, opt dot_space_dash,
                       In [Digit, ch CHR ''k'', ch CHR ''K''], WordB]),
    (''CI_VEN'', seq [WordB, In [ch CHR ''V'', ch CHR ''v'', ch CHR ''E'', ch CHR ''e''],
                      dash_blank, digits 6 8, WordB]),
    (''PAS_ARG'', seq [WordB, lit ''AA'', dash_space, times 7 digit, WordB]),
    (''PAS_CHI'', seq [WordB, In [ch CHR ''C'', ch CHR ''c''], lit ''-'', times 8 digit,
                       WordB]),
    (''PAS_MEX'', seq [WordB, lit ''G-'', times 8 digit, WordB]),
    (''ID_HTI'', seq [WordB, times 2 digit, dash_space, times 2 digit, dash_space,
                      times 2 digit, dash_space, times 5 digit, WordB]),
    (''CI_CRI'', seq [WordB, lit ''CR'', opt dash_space, digit, opt dash_space,
                      times 4 digit, opt dash_space, times 4 digit, WordB]),
    (''CI_CUB'', seq [WordB, lit ''CUB'', opt dash_space, times 6 digit, opt dash_space,
                      times 5 digit, WordB]),
    (''NIT_BOL'', seq [WordB, lit ''BO'', opt dash_space, digits 6 8, opt dash_space,
                       digit, WordB]),
    (''NIT_COL'', seq [WordB, lit ''COL'', opt dash_space, digits 8 10, lit ''-'', digit,
                       WordB]),
    (''NIT_GTM'', seq [WordB, lit ''GT'', opt dash_space, digits 6 8, opt dash_space,
                       digit, WordB]),
    (''NIT_SLV'', seq [WordB, lit ''SV'', opt dash_space, times 4 digit, opt dash_space,
                       times 6 digit, opt dash_space, times 3 digit, opt dash_space, digit,
                       WordB]),
    (''RNC_DOM'', seq [WordB, lit ''RD'', opt dash_space, digit, opt dash_space,
                       times 2 digit, opt dash_space, times 5 digit, opt dash_space, digit,
                       WordB]),
    (''RTN_HND'', seq [WordB, lit ''HN'', opt dash_space, times 4 digit, opt dash_space,
                       times 4 digit, opt dash_space, times 5 digit, WordB]),
    (''RUC_ECU'', seq [WordB, lit ''EC'', opt dash_space, times 10 digit, opt dash_space,
                       times 3 digit, WordB]),
    (''RUC_PAN'', seq [WordB, lit ''P'', opt dash_space, digits 1 4, opt dash_space,
                       digits 1 4, opt dash_space, digits 1 4, WordB]),
    (''RUC_PER'', seq [WordB, lit ''PE'', opt dash_space,
                       alts [lit ''10'', lit ''15'', lit ''16'', lit ''17'', lit ''20''],
                       times 8 digit, WordB])]"

text \<open>\<open>PATTERNS = [re.compile(p, flags=re.IGNORECASE) for p in RAW_PATTERNS.values()]\<close>\<close>

definition PATTERNS :: "regex list" where
  "PATTERNS = map snd RAW_PATTERNS"

text \<open>\<open>replace_identifiers(text, label)\<close>; the default of \<open>label\<close> is \<open>default_label\<close>.\<close>

definition replace_identifiers :: "tables \<Rightarrow> str \<Rightarrow> str \<Rightarrow> str option" where
  "replace_identifiers T text label = replace_spans label text (find_all T PATTERNS text)"

section \<open>The catalog of \<open>text_filter_ID.py\<close> and \<open>dataset_filter_ID.py\<close>\<close>

definition ordered_regex_patterns :: "(string \<times> regex) list" where
  "ordered_regex_patterns =
   [(''NIT_SLV'', seq [WordB, times 4 digit, dash_space, times 6 digit, dash_space,
                       times 3 digit, dash_space, digit, WordB]),
    (''RNC_DOM'', seq [WordB, times 1 digit, dash_space, times 2 digit, dash_space,
                       times 5 digit, dash_space, digit, WordB]),
    (''RTN_HND'', seq [WordB, times 4 digit, dash_space, times 4 digit, dash_space,
                       times 5 digit, WordB]),
    (''CI_NIC'', seq [WordB, times 3 digit, dash_space, times 6 digit, dash_space,
                      times 4 digit, opt (In [A_Z]), WordB]),
    (''RUC_NIC'', seq [WordB, times 3 digit, dash_space, times 6 digit, dash_space,
                       times 4 digit, opt (In [A_Z]), WordB]),
    (''RUC_ECU'', seq [WordB, times 10 digit, dash_space, times 3 digit, WordB]),
    (''CIE_DOM'', seq [WordB, times 3 digit, dash_space, times 7 digit, dash_space, digit,
                       WordB]),
    (''CPF_BRA'', seq [WordB, times 3 digit, dot_space_dash, times 3 digit, dot_space_dash,
                       times 3 digit, dot_space_dash, times 2 digit, WordB]),
    (''RUC_PAN'', seq [WordB, digits 1 4, dash_space, digits 1 4, dash_space, digits 1 4,
                       WordB]),
    (''CI_CUB'', seq [WordB, times 6 digit, dash_space, times 5 digit, WordB]),
    (''CI_CRI'', seq [WordB, times 1 digit, dash_space, times 4 digit, dash_space,
                      times 4 digit, WordB]),
    (''DPI_GTM'', seq [WordB, times 4 digit, In [Space], times 5 digit, In [Space],
                       times 4 digit, WordB]),
    (''CURP_MEX'', seq [WordB, times 4 (In [A_Z]), opt (lit ''-''), times 6 digit,
                        opt (lit ''-''), In [ch CHR ''H'', ch CHR ''M''], times 5 (In [A_Z]),
                        In [A_Z, rng CHR ''0'' CHR ''9''], WordB]),
    (''RFC_MEX'', seq [WordB, Repeat 3 4 (In [A_Z, Chr 209, ch CHR ''&'']), opt (lit ''-''),
                       times 6 digit, opt (lit ''-''),
                       times 3 (In [A_Z, rng CHR ''0'' CHR ''9'']), WordB]),
    (''RIF_VEN'', seq [WordB, In [ch CHR ''J'', ch CHR ''G'', ch CHR ''V'', ch CHR ''E'',
                                  ch CHR ''P''],
                       dash_space, times 8 digit, dash_space, digit, WordB]),
    (''CI_BOL'', seq [WordB, digits 6 8, dash_space, times 2 (In [A_Z]), WordB]),
    (''RUC_PRY'', seq [WordB, digits 6 8, opt (In [A_Z]), dash_space, digit, WordB]),
    (''CUIT_ARG'', seq [WordB, times 2 digit, dot_space_dash, times 8 digit, dot_space_dash,
                        digit, WordB]),
    (''NIT_COL'', seq [WordB, digits 8 10, lit ''-'', digit, WordB]),
    (''CI_URU'', seq [WordB, digits 1 2, dot_space_dash, times 3 digit, dot_space_dash,
                      times 3 digit, dot_space_dash, digit, WordB]),
    (''RUT_CHI'', seq [WordB, digits 1 2, dot_space_dash, times 3 digit, dot_space_dash,
                       times 3 digit, opt dot_space_dash,
                       In [Digit, ch CHR ''k'', ch CHR ''K''], WordB]),
    (''CI_VEN'', seq [WordB, In [ch CHR ''V'', ch CHR ''v'', ch CHR ''E'', ch CHR ''e''],
                      dash_space, digits 6 8, WordB]),
    (''PAS_ARG'', seq [WordB, lit ''AA'', dash_space, times 7 digit, WordB]),
    (''PAS_CHI'', seq [WordB, In [ch CHR ''C'', ch CHR ''c''], dash_space, times 8 digit,
                       WordB]),
    (''PAS_MEX'', seq [WordB, lit ''G'', dash_space, times 8 digit, WordB]),
    (''NIT_GTM'', seq [WordB, digits 6 8, dash_space, digit, WordB]),
    (''NIT_BOL'', seq [WordB, digits 6 8, dash_space, digit, WordB]),
    (''ID_HTI'', seq [WordB, times 2 digit, dash_space, times 2 digit, dash_space,
                      times 2 digit, dash_space, times 5 digit, WordB])]"

text \<open>\<open>reemplazar_identificadores(texto)\<close>: every pattern of the dictionary is searched
  with \<open>re.finditer(patron, texto, flags=re.IGNORECASE)\<close>.\<close>

definition reemplazar_identificadores :: "tables \<Rightarrow> str \<Rightarrow> str option" where
  "reemplazar_identificadores T texto =
     reemplazar_spans texto (find_all T (map snd ordered_regex_patterns) texto)"

section \<open>The tables on ASCII\<close>

text \<open>
  On the code points U+0000 to U+007F the engine's tables are: \<open>\d\<close> is \<open>0-9\<close>; \<open>\s\<close> is
  the blank, \<open>\t \n \v \f \r\<close> and the separators U+001C to U+001F; \<open>\w\<close> is a letter, a
  digit or the underscore; two code points are the same letter when their lower-case
  forms are equal. \<open>ascii_tables\<close> has these entries and classifies no other code point;
  it is used to run the engine on ASCII texts.
\<close>

definition ascii_lower :: "codepoint \<Rightarrow> codepoint" where
  "ascii_lower c = (if 65 \<le> c \<and> c \<le> 90 then c + 32 else c)"

definition ascii_tables :: tables where
  "ascii_tables =
     \<lparr> is_digit = (\<lambda>c. 48 \<le> c \<and> c \<le> 57),
       is_space = (\<lambda>c. c = 32 \<or> (9 \<le> c \<and> c \<le> 13) \<or> (28 \<le> c \<and> c \<le> 31)),
       is_word = (\<lambda>c. (48 \<le> c \<and> c \<le> 57) \<or> (65 \<le> c \<and> c \<le> 90) \<or> (97 \<le> c \<and> c \<le> 122)
                      \<or> c = 95),
       same_letter = (\<lambda>a b. ascii_lower a = ascii_lower b) \<rparr>"

section \<open>Views of the loop used to state its properties\<close>

text \<open>The positions \<open>[start, end)\<close> of a span, and the positions an \<open>occupied\<close> array marks.\<close>

definition covered :: "span \<Rightarrow> nat set" where
  "covered sp = {fst sp..<snd sp}"

definition marked :: "bool list \<Rightarrow> nat set" where
  "marked occupied = {k. k < length occupied \<and> occupied ! k}"

text \<open>
  The spans for which the loop body does not \<open>continue\<close>, in the order of the loop: the
  same test and the same marking as \<open>replace_step\<close> and \<open>reemplazar_step\<close>, without the
  characters.
\<close>

fun accepted :: "bool list \<Rightarrow> span list \<Rightarrow> span list option" where
  "accepted occupied [] = Some []"
| "accepted occupied ((start, end) # spans) =
     (if any (slice occupied start end) then accepted occupied spans
      else (case mark occupied start end of
              None \<Rightarrow> None
            | Some occupied' \<Rightarrow> map_option ((#) (start, end)) (accepted occupied' spans)))"

text \<open>The spans one call rewrites: the loop runs on the sorted list with nothing occupied.\<close>

definition rewritten :: "str \<Rightarrow> span list \<Rightarrow> span list option" where
  "rewritten text spans = accepted (replicate (length text) False) (sort_key span_key spans)"

text \<open>The two assignments to the characters, \<open>chars[start:end] = repl\<close> of
  \<open>replace_identifiers\<close> and \<open>resultado[start:end] = reemplazo[:end - start]\<close> of
  \<open>reemplazar_identificadores\<close>.\<close>

fun put_label :: "str \<Rightarrow> span \<Rightarrow> str \<Rightarrow> str" where
  "put_label label (start, end) chars = assign_slice chars start end (ljust label (end - start))"

fun escribir :: "span \<Rightarrow> str \<Rightarrow> str" where
  "escribir (start, end) resultado =
     assign_slice resultado start end
       (prefix_upto (ljust default_label (end - start)) (int end - int start))"

section \<open>The selection rule in the words of the specification\<close>

text \<open>
  The specification orders the candidates by descending length, then ascending start,
  and walks them with a set of occupied positions: a span that meets an occupied position
  is discarded, any other is accepted and its positions become occupied.
\<close>

definition spec_precedes :: "span \<Rightarrow> span \<Rightarrow> bool" where
  "spec_precedes a b =
     (snd b - fst b < snd a - fst a \<or> (snd a - fst a = snd b - fst b \<and> fst a \<le> fst b))"

fun spec_selection :: "nat set \<Rightarrow> span list \<Rightarrow> span list" where
  "spec_selection occ [] = []"
| "spec_selection occ (sp # rest) =
     (if covered sp \<inter> occ \<noteq> {} then spec_selection occ rest
      else sp # spec_selection (occ \<union> covered sp) rest)"

section \<open>Measures of a pattern\<close>

text \<open>The least number of code points a match of the pattern consumes.\<close>

primrec minlen :: "regex \<Rightarrow> nat" where
  "minlen Eps = 0"
| "minlen WordB = 0"
| "minlen (In items) = 1"
| "minlen (Cat r s) = minlen r + minlen s"
| "minlen (Alt r s) = min (minlen r) (minlen s)"
| "minlen (Repeat m n r) = m * minlen r"

text \<open>No pattern of the list matches anywhere in the text.\<close>

definition no_match :: "tables \<Rightarrow> regex list \<Rightarrow> str \<Rightarrow> bool" where
  "no_match T pats text =
     list_all (\<lambda>pat. list_all (\<lambda>i. ends T text pat i = []) [0..<Suc (length text)]) pats"

text \<open>Every match of the pattern begins, respectively ends, at a word boundary: the
  pattern is a concatenation whose first, respectively last, piece is \<open>\b\<close>.\<close>

primrec starts_wb :: "regex \<Rightarrow> bool" where
  "starts_wb Eps = False"
| "starts_wb WordB = True"
| "starts_wb (In items) = False"
| "starts_wb (Cat r s) = starts_wb r"
| "starts_wb (Alt r s) = (starts_wb r \<and> starts_wb s)"
| "starts_wb (Repeat m n r) = False"

primrec ends_wb :: "regex \<Rightarrow> bool" where
  "ends_wb Eps = False"
| "ends_wb WordB = True"
| "ends_wb (In items) = False"
| "ends_wb (Cat r s) = ends_wb s"
| "ends_wb (Alt r s) = (ends_wb r \<and> ends_wb s)"
| "ends_wb (Repeat m n r) = False"

text \<open>Some class of the pattern accepts the code point \<open>c\<close>; a match that consumes a
  code point can begin with \<open>c\<close>.\<close>

primrec accepts :: "tables \<Rightarrow> codepoint \<Rightarrow> regex \<Rightarrow> bool" where
  "accepts T c Eps = False"
| "accepts T c WordB = False"
| "accepts T c (In items) = list_ex (in_item T c) items"
| "accepts T c (Cat r s) = (accepts T c r \<or> accepts T c s)"
| "accepts T c (Alt r s) = (accepts T c r \<or> accepts T c s)"
| "accepts T c (Repeat m n r) = accepts T c r"

primrec firsts :: "tables \<Rightarrow> codepoint \<Rightarrow> regex \<Rightarrow> bool" where
  "firsts T c Eps = False"
| "firsts T c WordB = False"
| "firsts T c (In items) = list_ex (in_item T c) items"
| "firsts T c (Cat r s) = (firsts T c r \<or> (minlen r = 0 \<and> firsts T c s))"
| "firsts T c (Alt r s) = (firsts T c r \<or> firsts T c s)"
| "firsts T c (Repeat m n r) = firsts T c r"

text \<open>
  Two texts of the same length look the same to a match attempt between \<open>i\<close> and \<open>j\<close>:
  they have the same code points there, and the code points just before \<open>i\<close> and at \<open>j\<close>
  are word characters in both or in neither.
\<close>

definition agree :: "tables \<Rightarrow> str \<Rightarrow> str \<Rightarrow> nat \<Rightarrow> nat \<Rightarrow> bool" where
  "agree T t' t i j =
     (length t' = length t \<and> list_all (\<lambda>k. t' ! k = t ! k) [i..<j]
      \<and> ((0 < i \<and> word_at T t' (i - 1)) = (0 < i \<and> word_at T t (i - 1)))
      \<and> word_at T t' j = word_at T t j)"

section \<open>Tables in which the placeholder is inert\<close>

text \<open>
  The characters \<open><\<close>, \<open>>\<close> and the blank are not digits and not word characters, and
  \<open>re.IGNORECASE\<close> makes each of them equal to itself only; \<open><\<close> and \<open>>\<close> are not
  whitespace. Python's tables are so.
\<close>

definition plain :: "tables \<Rightarrow> codepoint \<Rightarrow> bool" where
  "plain T c = (\<not> is_digit T c \<and> \<not> is_word T c \<and> (\<forall>x. same_letter T c x = (x = c)))"

definition placeholder_inert :: "tables \<Rightarrow> bool" where
  "placeholder_inert T =
     (plain T 60 \<and> plain T 62 \<and> plain T 32 \<and> \<not> is_space T 60 \<and> \<not> is_space T 62)"

text \<open>No two different spans of the list overlap.\<close>

definition no_overlap :: "span list \<Rightarrow> bool" where
  "no_overlap spans =
     list_all (\<lambda>a. list_all (\<lambda>b. a = b \<or> covered a \<inter> covered b = {}) spans) spans"

text \<open>
  What the argument about a second call needs of a pattern: a match is at least four code
  points long, begins and ends at a word boundary, consumes neither \<open><\<close> nor \<open>>\<close>, and
  does not begin with a blank.
\<close>

definition shaped :: "tables \<Rightarrow> regex \<Rightarrow> bool" where
  "shaped T r =
     (4 \<le> minlen r \<and> starts_wb r \<and> ends_wb r \<and> \<not> accepts T 60 r \<and> \<not> accepts T 62 r
      \<and> \<not> firsts T 32 r)"

text \<open>\<open>masks acc t r\<close>: the text \<open>r\<close> is \<open>t\<close> with every span of \<open>acc\<close> holding the padded
  default placeholder and every other position unchanged.\<close>

definition masks :: "span list \<Rightarrow> str \<Rightarrow> str \<Rightarrow> bool" where
  "masks acc t r =
     (length r = length t
      \<and> (\<forall>sp\<in>set acc. \<forall>k\<in>covered sp.
            r ! k = ljust default_label (snd sp - fst sp) ! (k - fst sp))
      \<and> (\<forall>k<length t. (\<forall>sp\<in>set acc. k \<notin> covered sp) \<longrightarrow> r ! k = t ! k))"

text \<open>Every position of every span of \<open>spans\<close> lies in some span of \<open>acc\<close>.\<close>

definition covered_by :: "span list \<Rightarrow> span list \<Rightarrow> bool" where
  "covered_by acc spans =
     list_all (\<lambda>c. list_all (\<lambda>k. list_ex (\<lambda>sp. k \<in> covered sp) acc) [fst c..<snd c]) spans"

section \<open>The loop and the selection rule\<close>

lemma any_slice_iff: "any (slice occ s e) \<longleftrightarrow> {s..<e} \<inter> marked occ \<noteq> {}"
proof
  assume "any (slice occ s e)"
  then obtain k where k: "k < length (take (e - s) (drop s occ))" "take (e - s) (drop s occ) ! k"
    by (auto simp: any_def slice_def list_ex_iff in_set_conv_nth)
  then have "s + k \<in> {s..<e} \<inter> marked occ"
    by (auto simp: marked_def)
  then show "{s..<e} \<inter> marked occ \<noteq> {}" by blast
next
  assume "{s..<e} \<inter> marked occ \<noteq> {}"
  then obtain k where k: "s \<le> k" "k < e" "k < length occ" "occ ! k"
    by (auto simp: marked_def)
  then have "k - s < length (take (e - s) (drop s occ))" "take (e - s) (drop s occ) ! (k - s)"
    by auto
  then have "True \<in> set (take (e - s) (drop s occ))"
    using nth_mem [of "k - s" "take (e - s) (drop s occ)"] by simp
  then show "any (slice occ s e)"
    by (auto simp: any_def slice_def list_ex_iff)
qed

lemma fold_update_length: "length (fold (\<lambda>i occ. occ[i := True]) js occ) = length occ"
  by (induction js arbitrary: occ) auto

lemma fold_update_nth:
  "k < length occ \<Longrightarrow> fold (\<lambda>i occ. occ[i := True]) js occ ! k = (occ ! k \<or> k \<in> set js)"
proof (induction js arbitrary: occ)
  case Nil
  then show ?case by simp
next
  case (Cons j js)
  have "fold (\<lambda>i occ. occ[i := True]) js (occ[j := True]) ! k
          = ((occ[j := True]) ! k \<or> k \<in> set js)"
    using Cons.prems by (intro Cons.IH) simp
  moreover have "(occ[j := True]) ! k = (occ ! k \<or> k = j)"
    using Cons.prems by (cases "k = j") simp_all
  ultimately show ?case by auto
qed

lemma mark_Some:
  assumes "e \<le> length occ \<or> e \<le> s"
  shows "\<exists>occ'. mark occ s e = Some occ' \<and> length occ' = length occ
            \<and> marked occ' = marked occ \<union> {s..<e}"
proof -
  let ?occ' = "fold (\<lambda>i occ. occ[i := True]) [s..<e] occ"
  have m: "mark occ s e = Some ?occ'" using assms by (auto simp: mark_def)
  have l: "length ?occ' = length occ" by (rule fold_update_length)
  have "marked ?occ' = marked occ \<union> {s..<e}"
    using assms by (auto simp: marked_def fold_update_length fold_update_nth)
  with m l show ?thesis by blast
qed

lemma accepted_spec_selection:
  "\<forall>sp\<in>set spans. snd sp \<le> length occ \<Longrightarrow>
   accepted occ spans = Some (spec_selection (marked occ) spans)"
proof (induction spans arbitrary: occ)
  case Nil
  then show ?case by simp
next
  case (Cons sp spans)
  obtain s e where sp: "sp = (s, e)" by (cases sp)
  from Cons.prems sp have e: "e \<le> length occ" by simp
  show ?case
  proof (cases "any (slice occ s e)")
    case True
    then show ?thesis using Cons sp by (simp add: any_slice_iff covered_def)
  next
    case False
    from mark_Some [of e occ s] e obtain occ' where
      o: "mark occ s e = Some occ'" "length occ' = length occ" "marked occ' = marked occ \<union> {s..<e}"
      by blast
    have "accepted occ' spans = Some (spec_selection (marked occ') spans)"
      using Cons.prems o(2) by (intro Cons.IH) simp
    then show ?thesis using False o sp by (simp add: any_slice_iff covered_def)
  qed
qed

lemma replace_loop_trace:
  "map_option fst (replace_loop label (chars, occ) spans)
     = map_option (\<lambda>acc. fold (put_label label) acc chars) (accepted occ spans)"
proof (induction spans arbitrary: chars occ)
  case Nil
  then show ?case by simp
next
  case (Cons sp spans)
  obtain s e where sp: "sp = (s, e)" by (cases sp)
  show ?case using Cons.IH
    by (simp add: sp option.map_comp comp_def split: option.splits)
qed

lemma reemplazar_loop_trace:
  "map_option fst (reemplazar_loop (chars, occ) spans)
     = map_option (\<lambda>acc. fold escribir acc chars) (accepted occ spans)"
proof (induction spans arbitrary: chars occ)
  case Nil
  then show ?case by simp
next
  case (Cons sp spans)
  obtain s e where sp: "sp = (s, e)" by (cases sp)
  show ?case using Cons.IH
    by (simp add: sp option.map_comp comp_def split: option.splits)
qed

section \<open>Bounds of a match\<close>

lemma rep_ends_lower:
  assumes step: "\<And>i j. j \<in> set (step i) \<Longrightarrow> i + k \<le> j"
  shows "j \<in> set (rep_ends step m n i) \<Longrightarrow> i + m * k \<le> j"
proof (induction n arbitrary: m i)
  case 0
  then show ?case by (simp split: if_splits)
next
  case (Suc n)
  from Suc.prems consider
      (more) i' where "i' \<in> set (step i)" "j \<in> set (rep_ends step (m - 1) n i')"
    | (stop) "m = 0" "j = i"
    by (auto split: if_splits)
  then show ?case
  proof cases
    case more
    from step [OF more(1)] Suc.IH [OF more(2)]
    have "i + k + (m - 1) * k \<le> j" by simp
    moreover have "m * k \<le> k + (m - 1) * k" by (cases m) simp_all
    ultimately show ?thesis by simp
  next
    case stop
    then show ?thesis by simp
  qed
qed

lemma ends_lower: "j \<in> set (ends T t r i) \<Longrightarrow> i + minlen r \<le> j"
proof (induction r arbitrary: i j)
  case (Cat r s)
  then obtain m where "m \<in> set (ends T t r i)" "j \<in> set (ends T t s m)" by auto
  with Cat.IH show ?case by fastforce
next
  case (Alt r s)
  then have "j \<in> set (ends T t r i) \<or> j \<in> set (ends T t s i)" by auto
  with Alt.IH show ?case by fastforce
next
  case (Repeat m n r)
  then show ?case using rep_ends_lower [of "ends T t r" "minlen r" j m n i] by simp
qed (auto split: if_splits)

lemma rep_ends_upper:
  assumes step: "\<And>i j. j \<in> set (step i) \<Longrightarrow> i \<le> N \<Longrightarrow> j \<le> N"
  shows "j \<in> set (rep_ends step m n i) \<Longrightarrow> i \<le> N \<Longrightarrow> j \<le> (N::nat)"
proof (induction n arbitrary: m i)
  case 0
  then show ?case by (simp split: if_splits)
next
  case (Suc n)
  from Suc.prems(1) consider
      (more) i' where "i' \<in> set (step i)" "j \<in> set (rep_ends step (m - 1) n i')"
    | (stop) "j = i"
    by (auto split: if_splits)
  then show ?case
  proof cases
    case more
    from step [OF more(1) Suc.prems(2)] Suc.IH [OF more(2)] show ?thesis by simp
  next
    case stop
    then show ?thesis using Suc.prems by simp
  qed
qed

lemma ends_upper: "j \<in> set (ends T t r i) \<Longrightarrow> i \<le> length t \<Longrightarrow> j \<le> length t"
proof (induction r arbitrary: i j)
  case (Cat r s)
  then obtain m where "m \<in> set (ends T t r i)" "j \<in> set (ends T t s m)" by auto
  with Cat show ?case by blast
next
  case (Alt r s)
  then have "j \<in> set (ends T t r i) \<or> j \<in> set (ends T t s i)" by auto
  with Alt show ?case by blast
next
  case (Repeat m n r)
  then show ?case using rep_ends_upper [of "ends T t r" "length t" j m n i] by simp
qed (auto split: if_splits)

lemma finditer_sound:
  "sp \<in> set (finditer T r t i) \<Longrightarrow>
   i \<le> fst sp \<and> fst sp \<le> length t \<and> snd sp \<in> set (ends T t r (fst sp))"
proof (induction T r t i rule: finditer.induct)
  case (1 T r t i)
  show ?case
  proof (cases "length t < i")
    case True
    with "1.prems" show ?thesis by (simp add: finditer.simps)
  next
    case False
    show ?thesis
    proof (cases "ends T t r i")
      case Nil
      with False "1.prems" have "sp \<in> set (finditer T r t (Suc i))"
        by (simp add: finditer.simps [of T r t i])
      from "1.IH"(1) [OF False Nil this] show ?thesis by simp
    next
      case (Cons j js)
      with False "1.prems" consider "sp = (i, j)"
        | "sp \<in> set (finditer T r t (if i < j then j else Suc i))"
        by (auto simp: finditer.simps [of T r t i])
      then show ?thesis
      proof cases
        case 1
        then show ?thesis using False Cons by simp
      next
        case 2
        from "1.IH"(2) [OF False Cons this] show ?thesis by (auto split: if_splits)
      qed
    qed
  qed
qed

lemma find_all_sound:
  assumes "sp \<in> set (find_all T pats t)"
  shows "\<exists>r\<in>set pats. snd sp \<in> set (ends T t r (fst sp)) \<and> fst sp \<le> length t"
  using assms finditer_sound by (fastforce simp: find_all_def)

lemma find_all_bounds:
  assumes sp: "sp \<in> set (find_all T pats t)" and w: "\<forall>r\<in>set pats. w \<le> minlen r"
  shows "fst sp + w \<le> snd sp \<and> snd sp \<le> length t"
proof -
  from find_all_sound [OF sp] obtain r where
    r: "r \<in> set pats" "snd sp \<in> set (ends T t r (fst sp))" "fst sp \<le> length t" by blast
  from ends_lower [OF r(2)] ends_upper [OF r(2) r(3)] w r(1) show ?thesis by fastforce
qed

lemma minlen_seq: "minlen (seq rs) = sum_list (map minlen rs)"
  by (induction rs rule: seq.induct) simp_all

lemma minlen_lit: "minlen (lit s) = length s"
  by (induction s) (simp_all add: lit_def minlen_seq comp_def)

lemma minlen_PATTERNS: "\<forall>r\<in>set PATTERNS. 4 \<le> minlen r"
  by (simp add: PATTERNS_def RAW_PATTERNS_def minlen_seq minlen_lit times_def opt_def
      digits_def digit_def dash_space_def dot_space_dash_def dash_blank_def)

lemma minlen_ordered_regex_patterns: "\<forall>r\<in>set (map snd ordered_regex_patterns). 5 \<le> minlen r"
  by (simp add: ordered_regex_patterns_def minlen_seq minlen_lit times_def opt_def
      digits_def digit_def dash_space_def dot_space_dash_def dash_blank_def)

section \<open>Writing the placeholder\<close>

lemma assign_slice_length:
  "s \<le> e \<Longrightarrow> e \<le> length cs \<Longrightarrow> length repl = e - s \<Longrightarrow>
   length (assign_slice cs s e repl) = length cs"
  by (simp add: assign_slice_def max_def)

lemma assign_slice_nth:
  assumes "s \<le> e" "e \<le> length cs" "length repl = e - s" "k < length cs"
  shows "assign_slice cs s e repl ! k = (if s \<le> k \<and> k < e then repl ! (k - s) else cs ! k)"
proof -
  have m: "max s e = e" using assms by simp
  consider "k < s" | "s \<le> k" "k < e" | "e \<le> k" by linarith
  then show ?thesis
  proof cases
    case 1
    then show ?thesis using assms by (simp add: assign_slice_def nth_append)
  next
    case 2
    then have "k - s < e - s" by linarith
    then show ?thesis using assms 2 by (simp add: assign_slice_def nth_append m)
  next
    case 3
    then have "k - s - (e - s) = k - e" "\<not> k < s" "\<not> k - s < e - s" using assms by auto
    then show ?thesis using assms 3 by (simp add: assign_slice_def nth_append m)
  qed
qed

lemma length_ljust: "length (ljust label w) = max (length label) w"
  by (simp add: ljust_def)

lemma length_default_label: "length default_label = 4"
  by (simp add: default_label_def codepoints_def)

lemma put_label_fits:
  assumes "fst sp \<le> snd sp" "snd sp \<le> length cs" "length label \<le> snd sp - fst sp"
  shows "length (put_label label sp cs) = length cs"
    and "k < length cs \<Longrightarrow> put_label label sp cs ! k =
           (if k \<in> covered sp then ljust label (snd sp - fst sp) ! (k - fst sp) else cs ! k)"
proof -
  obtain s e where sp: "sp = (s, e)" by (cases sp)
  have l: "length (ljust label (e - s)) = e - s" using assms sp by (simp add: length_ljust)
  show "length (put_label label sp cs) = length cs"
    using assms sp l by (simp add: assign_slice_length)
  show "put_label label sp cs ! k =
           (if k \<in> covered sp then ljust label (snd sp - fst sp) ! (k - fst sp) else cs ! k)"
    if "k < length cs"
    using assms sp l that by (simp add: assign_slice_nth covered_def)
qed

lemma escribir_fits:
  assumes "fst sp \<le> snd sp" "snd sp \<le> length cs"
  shows "length (escribir sp cs) = length cs"
    and "k < length cs \<Longrightarrow> escribir sp cs ! k =
           (if k \<in> covered sp then take (snd sp - fst sp) (ljust default_label (snd sp - fst sp)) ! (k - fst sp)
            else cs ! k)"
proof -
  obtain s e where sp: "sp = (s, e)" by (cases sp)
  have p: "prefix_upto (ljust default_label (e - s)) (int e - int s)
             = take (e - s) (ljust default_label (e - s))"
    using assms sp by (simp add: prefix_upto_def nat_diff_distrib')
  have l: "length (take (e - s) (ljust default_label (e - s))) = e - s"
    by (simp add: length_ljust)
  show "length (escribir sp cs) = length cs"
    using assms sp l by (simp add: assign_slice_length p del: length_take)
  show "escribir sp cs ! k =
           (if k \<in> covered sp then take (snd sp - fst sp) (ljust default_label (snd sp - fst sp)) ! (k - fst sp)
            else cs ! k)"
    if "k < length cs"
    using assms sp l that by (simp add: assign_slice_nth covered_def p del: length_take)
qed

lemma fold_frame:
  assumes w: "\<And>sp cs. sp \<in> S \<Longrightarrow> snd sp \<le> length cs \<Longrightarrow>
                length (w sp cs) = length cs
                \<and> (\<forall>k<length cs. k \<notin> covered sp \<longrightarrow> w sp cs ! k = cs ! k)"
  shows "set acc \<subseteq> S \<Longrightarrow> \<forall>sp\<in>set acc. snd sp \<le> length cs \<Longrightarrow>
         length (fold w acc cs) = length cs
         \<and> (\<forall>k<length cs. (\<forall>sp\<in>set acc. k \<notin> covered sp) \<longrightarrow> fold w acc cs ! k = cs ! k)"
proof (induction acc arbitrary: cs)
  case Nil
  then show ?case by simp
next
  case (Cons a acc)
  from Cons.prems have a: "a \<in> S" "snd a \<le> length cs" by auto
  from w [OF a] have wa: "length (w a cs) = length cs"
    "\<forall>k<length cs. k \<notin> covered a \<longrightarrow> w a cs ! k = cs ! k" by auto
  have "length (fold w acc (w a cs)) = length (w a cs)
         \<and> (\<forall>k<length (w a cs). (\<forall>sp\<in>set acc. k \<notin> covered sp) \<longrightarrow>
                fold w acc (w a cs) ! k = w a cs ! k)"
    using Cons.prems wa(1) by (intro Cons.IH) auto
  with wa show ?case by simp
qed

lemma fold_inside:
  assumes w: "\<And>sp cs. sp \<in> S \<Longrightarrow> snd sp \<le> length cs \<Longrightarrow>
                length (w sp cs) = length cs
                \<and> (\<forall>k<length cs. k \<notin> covered sp \<longrightarrow> w sp cs ! k = cs ! k)"
    and f: "\<And>sp cs k. sp \<in> S \<Longrightarrow> snd sp \<le> length cs \<Longrightarrow> k \<in> covered sp \<Longrightarrow>
                w sp cs ! k = fill sp ! (k - fst sp)"
  shows "set acc \<subseteq> S \<Longrightarrow> \<forall>sp\<in>set acc. snd sp \<le> length cs \<Longrightarrow>
         sorted_wrt (\<lambda>a b. covered a \<inter> covered b = {}) acc \<Longrightarrow>
         sp \<in> set acc \<Longrightarrow> k \<in> covered sp \<Longrightarrow>
         fold w acc cs ! k = fill sp ! (k - fst sp)"
proof (induction acc arbitrary: cs)
  case Nil
  then show ?case by simp
next
  case (Cons a acc)
  from Cons.prems have a: "a \<in> S" "snd a \<le> length cs" by auto
  from w [OF a] have wa: "length (w a cs) = length cs" by auto
  have k: "k < length cs" using Cons.prems(2,4,5) by (auto simp: covered_def)
  show ?case
  proof (cases "sp \<in> set acc")
    case True
    have "fold w acc (w a cs) ! k = fill sp ! (k - fst sp)"
      using Cons.prems wa True by (intro Cons.IH) auto
    then show ?thesis by simp
  next
    case False
    with Cons.prems have sp: "sp = a" by simp
    have "\<forall>b\<in>set acc. k \<notin> covered b" using Cons.prems(3,5) sp by auto
    moreover have "length (fold w acc (w a cs)) = length (w a cs)
         \<and> (\<forall>k<length (w a cs). (\<forall>sp\<in>set acc. k \<notin> covered sp) \<longrightarrow>
                fold w acc (w a cs) ! k = w a cs ! k)"
      using Cons.prems wa by (intro fold_frame [of S w] w) auto
    ultimately have "fold w acc (w a cs) ! k = w a cs ! k" using k wa by simp
    also have "\<dots> = fill sp ! (k - fst sp)" using f [OF a] Cons.prems(5) sp by simp
    finally show ?thesis by simp
  qed
qed

lemma spec_selection_subset: "set (spec_selection occ spans) \<subseteq> set spans"
  by (induction spans arbitrary: occ) auto

lemma spec_selection_avoids:
  "sp \<in> set (spec_selection occ spans) \<Longrightarrow> covered sp \<inter> occ = {}"
proof (induction spans arbitrary: occ)
  case Nil
  then show ?case by simp
next
  case (Cons a spans)
  show ?case
  proof (cases "covered a \<inter> occ \<noteq> {}")
    case True
    with Cons show ?thesis by simp
  next
    case False
    with Cons.prems consider "sp = a" | "sp \<in> set (spec_selection (occ \<union> covered a) spans)"
      by auto
    then show ?thesis
    proof cases
      case 1
      with False show ?thesis by simp
    next
      case 2
      from Cons.IH [OF 2] show ?thesis by blast
    qed
  qed
qed

lemma spec_selection_disjoint:
  "sorted_wrt (\<lambda>a b. covered a \<inter> covered b = {}) (spec_selection occ spans)"
proof (induction spans arbitrary: occ)
  case Nil
  then show ?case by simp
next
  case (Cons a spans)
  have "\<forall>b\<in>set (spec_selection (occ \<union> covered a) spans). covered a \<inter> covered b = {}"
    using spec_selection_avoids [of _ "occ \<union> covered a" spans] by blast
  with Cons show ?case by simp
qed

lemma marked_replicate: "marked (replicate n False) = {}"
  by (auto simp: marked_def)

lemma rewritten_eq:
  assumes "\<forall>sp\<in>set spans. snd sp \<le> length t"
  shows "rewritten t spans = Some (spec_selection {} (sort_key span_key spans))"
  using accepted_spec_selection [of "sort_key span_key spans" "replicate (length t) False"] assms
  by (simp add: rewritten_def marked_replicate)

lemma replace_spans_eq:
  assumes "\<forall>sp\<in>set spans. snd sp \<le> length t"
  shows "replace_spans label t spans
           = Some (fold (put_label label) (spec_selection {} (sort_key span_key spans)) t)"
proof (cases "spans = []")
  case True
  then show ?thesis by (simp add: replace_spans_def)
next
  case False
  then show ?thesis
    using rewritten_eq [OF assms] replace_loop_trace [of label t "replicate (length t) False"
        "sort_key span_key spans"]
    by (simp add: replace_spans_def rewritten_def)
qed

lemma reemplazar_spans_eq:
  assumes "\<forall>sp\<in>set spans. snd sp \<le> length t"
  shows "reemplazar_spans t spans
           = Some (fold escribir (spec_selection {} (sort_key span_key spans)) t)"
  using rewritten_eq [OF assms] reemplazar_loop_trace [of t "replicate (length t) False"
        "sort_key span_key spans"]
  by (simp add: reemplazar_spans_def rewritten_def)


section \<open>The redactors on the candidates of their catalogs\<close>

lemma fold_put_label:
  assumes "\<forall>sp\<in>set acc. fst sp + length label \<le> snd sp \<and> snd sp \<le> length t"
  shows "length (fold (put_label label) acc t) = length t
         \<and> (\<forall>k<length t. (\<forall>sp\<in>set acc. k \<notin> covered sp) \<longrightarrow>
               fold (put_label label) acc t ! k = t ! k)"
proof (rule fold_frame [of "{sp. fst sp + length label \<le> snd sp}"])
  fix sp and cs :: str
  assume "sp \<in> {sp. fst sp + length label \<le> snd sp}" "snd sp \<le> length cs"
  then show "length (put_label label sp cs) = length cs
       \<and> (\<forall>k<length cs. k \<notin> covered sp \<longrightarrow> put_label label sp cs ! k = cs ! k)"
    using put_label_fits [of sp cs label] by simp
qed (use assms in auto)

lemma fold_escribir:
  assumes "\<forall>sp\<in>set acc. fst sp \<le> snd sp \<and> snd sp \<le> length t"
  shows "length (fold escribir acc t) = length t
         \<and> (\<forall>k<length t. (\<forall>sp\<in>set acc. k \<notin> covered sp) \<longrightarrow> fold escribir acc t ! k = t ! k)"
proof (rule fold_frame [of "{sp. fst sp \<le> snd sp}"])
  fix sp and cs :: str
  assume "sp \<in> {sp. fst sp \<le> snd sp}" "snd sp \<le> length cs"
  then show "length (escribir sp cs) = length cs
       \<and> (\<forall>k<length cs. k \<notin> covered sp \<longrightarrow> escribir sp cs ! k = cs ! k)"
    using escribir_fits [of sp cs] by simp
qed (use assms in auto)

lemma candidates_PATTERNS:
  "sp \<in> set (find_all T PATTERNS t) \<Longrightarrow> fst sp + 4 \<le> snd sp \<and> snd sp \<le> length t"
  using find_all_bounds [of sp T PATTERNS t 4] minlen_PATTERNS by blast

lemma candidates_ordered_regex_patterns:
  "sp \<in> set (find_all T (map snd ordered_regex_patterns) t) \<Longrightarrow>
   fst sp + 5 \<le> snd sp \<and> snd sp \<le> length t"
  using find_all_bounds [of sp T "map snd ordered_regex_patterns" t 5]
    minlen_ordered_regex_patterns by blast

lemma selection_of_candidates:
  "sp \<in> set (spec_selection occ (sort_key span_key spans)) \<Longrightarrow> sp \<in> set spans"
  using spec_selection_subset [of occ "sort_key span_key spans"] by auto

lemma replace_identifiers_eq:
  "replace_identifiers T t label
     = Some (fold (put_label label)
               (spec_selection {} (sort_key span_key (find_all T PATTERNS t))) t)"
  unfolding replace_identifiers_def
  by (rule replace_spans_eq) (use candidates_PATTERNS in blast)

lemma reemplazar_identificadores_eq:
  "reemplazar_identificadores T t
     = Some (fold escribir
               (spec_selection {} (sort_key span_key
                  (find_all T (map snd ordered_regex_patterns) t))) t)"
  unfolding reemplazar_identificadores_def
  by (rule reemplazar_spans_eq) (use candidates_ordered_regex_patterns in blast)

lemma replace_identifiers_frame:
  assumes "length label \<le> 4"
  shows "\<exists>out. replace_identifiers T t label = Some out \<and> length out = length t
           \<and> (\<forall>k<length t.
                 (\<forall>sp\<in>set (spec_selection {} (sort_key span_key (find_all T PATTERNS t))).
                     k \<notin> covered sp) \<longrightarrow> out ! k = t ! k)"
proof -
  let ?acc = "spec_selection {} (sort_key span_key (find_all T PATTERNS t))"
  have "\<forall>sp\<in>set ?acc. fst sp + length label \<le> snd sp \<and> snd sp \<le> length t"
    using selection_of_candidates candidates_PATTERNS assms by fastforce
  from fold_put_label [OF this] show ?thesis by (simp add: replace_identifiers_eq)
qed

lemma reemplazar_identificadores_frame:
  "\<exists>out. reemplazar_identificadores T t = Some out \<and> length out = length t
           \<and> (\<forall>k<length t.
                 (\<forall>sp\<in>set (spec_selection {} (sort_key span_key
                              (find_all T (map snd ordered_regex_patterns) t))).
                     k \<notin> covered sp) \<longrightarrow> out ! k = t ! k)"
proof -
  let ?acc = "spec_selection {} (sort_key span_key
                 (find_all T (map snd ordered_regex_patterns) t))"
  have "\<forall>sp\<in>set ?acc. fst sp \<le> snd sp \<and> snd sp \<le> length t"
    using selection_of_candidates candidates_ordered_regex_patterns by fastforce
  from fold_escribir [OF this] show ?thesis by (simp add: reemplazar_identificadores_eq)
qed


section \<open>Sorting by the key, duplicates, and texts without a match\<close>

lemma inj_span_key: "inj span_key"
  by (auto simp: inj_on_def span_key_def prod_eq_iff)

lemma sorted_by_key_unique:
  fixes f :: "'a \<Rightarrow> 'b::linorder"
  assumes "inj f" "sorted (map f xs)" "sorted (map f ys)" "mset xs = mset ys"
  shows "xs = ys"
proof -
  have "mset (map f ys) = mset (map f xs)" using assms(4) by simp
  from properties_for_sort [OF this assms(3)] have "sort (map f xs) = map f ys" .
  moreover have "sort (map f xs) = map f xs" using assms(2) by (simp add: sorted_sort_id)
  ultimately have "map f xs = map f ys" by simp
  with assms(1) show ?thesis by simp
qed

lemma sort_key_span_key_cong:
  "mset xs = mset ys \<Longrightarrow> sort_key span_key xs = sort_key span_key ys"
  by (rule sorted_by_key_unique [OF inj_span_key]) simp_all

lemma span_key_le:
  assumes "fst a \<le> snd a" "fst b \<le> snd b" "span_key a \<le> span_key b"
  shows "spec_precedes a b"
  using assms by (auto simp: span_key_def spec_precedes_def)

lemma sorted_spec_precedes:
  assumes "\<forall>sp\<in>set spans. fst sp \<le> snd sp"
  shows "sorted_wrt spec_precedes (sort_key span_key spans)"
proof -
  have "sorted_wrt (\<lambda>a b. span_key a \<le> span_key b) (sort_key span_key spans)"
    using sorted_sort_key [of span_key spans] by (simp add: sorted_map)
  then show ?thesis
    by (rule sorted_wrt_mono_rel [rotated]) (use assms span_key_le in auto)
qed







lemma finditer_no_match:
  "\<forall>j. i \<le> j \<and> j \<le> length t \<longrightarrow> ends T t r j = [] \<Longrightarrow> finditer T r t i = []"
proof (induction T r t i rule: finditer.induct)
  case (1 T r t i)
  show ?case
  proof (cases "length t < i")
    case True
    then show ?thesis by (simp add: finditer.simps)
  next
    case False
    with "1.prems" have e: "ends T t r i = []" by simp
    have "finditer T r t (Suc i) = []"
      using "1.prems" by (intro "1.IH"(1) [OF False e]) simp
    with False e show ?thesis by (simp add: finditer.simps [of T r t i])
  qed
qed

lemma no_match_find_all: "no_match T pats t \<Longrightarrow> find_all T pats t = []"
proof -
  assume n: "no_match T pats t"
  from n have "\<forall>r\<in>set pats. \<forall>i\<in>set [0..<Suc (length t)]. ends T t r i = []"
    unfolding no_match_def list_all_iff .
  then have "finditer T r t 0 = []" if "r \<in> set pats" for r
    using that by (intro finditer_no_match) (simp del: upt_Suc add: less_Suc_eq_le)
  then show ?thesis by (simp add: find_all_def)
qed

lemma find_all_empty_text:
  assumes "\<forall>r\<in>set pats. 0 < minlen r"
  shows "find_all T pats [] = []"
proof (rule ccontr)
  assume "find_all T pats [] \<noteq> []"
  then obtain sp where "sp \<in> set (find_all T pats [])" by (cases "find_all T pats []") auto
  from find_all_sound [OF this] obtain r where
    r: "r \<in> set pats" "snd sp \<in> set (ends T [] r (fst sp))" "fst sp \<le> length ([]::str)" by blast
  from ends_lower [OF r(2)] ends_upper [OF r(2) r(3)] assms r(1) show False by fastforce
qed

section \<open>Candidates and the spans rewritten\<close>

lemma candidates_valid:
  "\<forall>sp\<in>set (find_all T PATTERNS t). fst sp < snd sp \<and> fst sp \<le> snd sp \<and> snd sp \<le> length t"
  using candidates_PATTERNS [of _ T t] by fastforce

lemma candidatos_valid:
  "\<forall>sp\<in>set (find_all T (map snd ordered_regex_patterns) t).
      fst sp < snd sp \<and> fst sp \<le> snd sp \<and> snd sp \<le> length t"
  using candidates_ordered_regex_patterns [of _ T t] by fastforce

lemma rewritten_candidates:
  "rewritten t (find_all T PATTERNS t)
     = Some (spec_selection {} (sort_key span_key (find_all T PATTERNS t)))"
  by (rule rewritten_eq) (use candidates_valid in blast)

lemma rewritten_candidatos:
  "rewritten t (find_all T (map snd ordered_regex_patterns) t)
     = Some (spec_selection {} (sort_key span_key
               (find_all T (map snd ordered_regex_patterns) t)))"
  by (rule rewritten_eq) (use candidatos_valid in blast)

section \<open>Two candidates\<close>

lemma sort_key_pair:
  assumes "mset spans = {#a, b#}" "span_key a \<le> span_key b"
  shows "sort_key span_key spans = [a, b]"
proof -
  have "mset spans = mset [a, b]" using assms(1) by simp
  from sort_key_span_key_cong [OF this] show ?thesis using assms(2) by simp
qed

lemma pair_members:
  assumes "mset spans = {#a, b#}"
  shows "a \<in> set spans" "b \<in> set spans"
proof -
  have "set_mset (mset spans) = {a, b}" using assms by simp
  then show "a \<in> set spans" "b \<in> set spans" by auto
qed

section \<open>Permuted candidates\<close>

lemma replace_spans_cong:
  assumes "mset spans' = mset spans"
  shows "replace_spans label t spans' = replace_spans label t spans"
proof -
  have "spans' = [] \<longleftrightarrow> spans = []" using assms by (metis mset_zero_iff)
  then show ?thesis
    using sort_key_span_key_cong [OF assms] by (simp add: replace_spans_def)
qed

lemma reemplazar_spans_cong:
  assumes "mset spans' = mset spans"
  shows "reemplazar_spans t spans' = reemplazar_spans t spans"
  using sort_key_span_key_cong [OF assms] by (simp add: reemplazar_spans_def)

lemma mset_find_all:
  assumes "mset pats' = mset pats"
  shows "mset (find_all T pats' t) = mset (find_all T pats t)"
proof -
  have "mset (concat (map f ps)) = (\<Sum>p\<in>#mset ps. mset (f p))" for f :: "regex \<Rightarrow> span list" and ps
    by (induction ps) simp_all
  then show ?thesis using assms by (simp add: find_all_def)
qed

section \<open>What a match depends on\<close>

lemma ends_mono: "j \<in> set (ends T t r i) \<Longrightarrow> i \<le> j"
  using ends_lower [of j T t r i] by simp

lemma rep_ends_mono:
  assumes "\<And>i j. j \<in> set (step i) \<Longrightarrow> i \<le> j"
  shows "j \<in> set (rep_ends step m n i) \<Longrightarrow> i \<le> j"
  using rep_ends_lower [of step 0 j m n i] assms by simp

lemma starts_wb_boundary:
  "starts_wb r \<Longrightarrow> j \<in> set (ends T t r i) \<Longrightarrow> boundary T t i"
  by (induction r arbitrary: i j) (auto split: if_splits)

lemma ends_wb_boundary:
  "ends_wb r \<Longrightarrow> j \<in> set (ends T t r i) \<Longrightarrow> boundary T t j"
  by (induction r arbitrary: i j) (auto split: if_splits)

lemma rep_ends_accepts:
  assumes step: "\<And>i j k. j \<in> set (step i) \<Longrightarrow> i \<le> k \<Longrightarrow> k < j \<Longrightarrow> P k"
  shows "j \<in> set (rep_ends step m n i) \<Longrightarrow> i \<le> k \<Longrightarrow> k < j \<Longrightarrow> P k"
proof (induction n arbitrary: m i)
  case 0
  then show ?case by (simp split: if_splits)
next
  case (Suc n)
  from Suc.prems consider
      (more) i' where "i' \<in> set (step i)" "j \<in> set (rep_ends step (m - 1) n i')"
    | (stop) "j = i"
    by (auto split: if_splits)
  then show ?case
  proof cases
    case more
    show ?thesis
    proof (cases "k < i'")
      case True
      from step [OF more(1) Suc.prems(2) True] show ?thesis .
    next
      case False
      then have "i' \<le> k" by simp
      from Suc.IH [OF more(2) this Suc.prems(3)] show ?thesis .
    qed
  next
    case stop
    with Suc.prems show ?thesis by simp
  qed
qed

lemma ends_accepts:
  "j \<in> set (ends T t r i) \<Longrightarrow> i \<le> k \<Longrightarrow> k < j \<Longrightarrow> accepts T (t ! k) r"
proof (induction r arbitrary: i j k)
  case (Cat r s)
  then obtain m where m: "m \<in> set (ends T t r i)" "j \<in> set (ends T t s m)" by auto
  show ?case
  proof (cases "k < m")
    case True
    from Cat.IH(1) [OF m(1) Cat.prems(2) True] show ?thesis by simp
  next
    case False
    then have "m \<le> k" by simp
    from Cat.IH(2) [OF m(2) this Cat.prems(3)] show ?thesis by simp
  qed
next
  case (Alt r s)
  then have "j \<in> set (ends T t r i) \<or> j \<in> set (ends T t s i)" by auto
  with Alt show ?case by auto
next
  case (Repeat m n r)
  from Repeat.prems have "j \<in> set (rep_ends (ends T t r) m n i)" by simp
  from rep_ends_accepts [of "ends T t r" "\<lambda>k. accepts T (t ! k) r", OF _ this Repeat.prems(2,3)]
    Repeat.IH
  show ?case by simp
next
  case (In items)
  then have "j = Suc i" "list_ex (in_item T (t ! i)) items" by (auto split: if_splits)
  with In.prems have "k = i" by simp
  with \<open>list_ex (in_item T (t ! i)) items\<close> show ?case by simp
qed (auto split: if_splits)

lemma rep_ends_firsts:
  assumes mono: "\<And>i j. j \<in> set (step i) \<Longrightarrow> i \<le> j"
    and step: "\<And>j. j \<in> set (step i) \<Longrightarrow> i < j \<Longrightarrow> P"
  shows "j \<in> set (rep_ends step m n i) \<Longrightarrow> i < j \<Longrightarrow> P"
proof (induction n arbitrary: m)
  case 0
  then show ?case by (simp split: if_splits)
next
  case (Suc n)
  from Suc.prems consider
      (more) i' where "i' \<in> set (step i)" "j \<in> set (rep_ends step (m - 1) n i')"
    | (stop) "j = i"
    by (auto split: if_splits)
  then show ?case
  proof cases
    case more
    show ?thesis
    proof (cases "i < i'")
      case True
      from step [OF more(1) True] show ?thesis .
    next
      case False
      with mono [OF more(1)] have "i' = i" by simp
      with more(2) Suc.IH Suc.prems(2) show ?thesis by simp
    qed
  next
    case stop
    with Suc.prems show ?thesis by simp
  qed
qed

lemma ends_firsts:
  "j \<in> set (ends T t r i) \<Longrightarrow> i < j \<Longrightarrow> firsts T (t ! i) r"
proof (induction r arbitrary: i j)
  case (Cat r s)
  then obtain m where m: "m \<in> set (ends T t r i)" "j \<in> set (ends T t s m)" by auto
  show ?case
  proof (cases "i < m")
    case True
    from Cat.IH(1) [OF m(1) True] show ?thesis by simp
  next
    case False
    with ends_lower [OF m(1)] have "m = i" "minlen r = 0" by simp_all
    with Cat.IH(2) [of j i] m(2) Cat.prems(2) show ?thesis by simp
  qed
next
  case (Alt r s)
  then have "j \<in> set (ends T t r i) \<or> j \<in> set (ends T t s i)" by auto
  with Alt show ?case by auto
next
  case (Repeat m n r)
  from Repeat.prems have "j \<in> set (rep_ends (ends T t r) m n i)" by simp
  from rep_ends_firsts [of "ends T t r" i "firsts T (t ! i) r", OF ends_mono _ this Repeat.prems(2)]
    Repeat.IH
  show ?case by simp
qed (auto split: if_splits)

lemma agree_iff:
  "agree T t' t i j \<longleftrightarrow>
     length t' = length t \<and> (\<forall>k. i \<le> k \<and> k < j \<longrightarrow> t' ! k = t ! k)
     \<and> ((0 < i \<and> word_at T t' (i - 1)) = (0 < i \<and> word_at T t (i - 1)))
     \<and> word_at T t' j = word_at T t j"
  by (auto simp: agree_def list_all_iff)

lemma agree_sub:
  assumes a: "agree T t' t i j" and le: "i \<le> i'" "i' \<le> j'" "j' \<le> j"
  shows "agree T t' t i' j'"
proof -
  from a have l: "length t' = length t" and eq: "\<And>k. i \<le> k \<Longrightarrow> k < j \<Longrightarrow> t' ! k = t ! k"
    and b: "(0 < i \<and> word_at T t' (i - 1)) = (0 < i \<and> word_at T t (i - 1))"
    and e: "word_at T t' j = word_at T t j"
    by (auto simp: agree_iff)
  have w: "word_at T t' k = word_at T t k" if "i \<le> k" "k < j" for k
    using eq [OF that] l by (simp add: word_at_def)
  have "(0 < i' \<and> word_at T t' (i' - 1)) = (0 < i' \<and> word_at T t (i' - 1))"
  proof (cases "i' = i")
    case True
    with b show ?thesis by simp
  next
    case False
    with le have "i \<le> i' - 1" "i' - 1 < j" by simp_all
    from w [OF this] show ?thesis by simp
  qed
  moreover have "word_at T t' j' = word_at T t j'"
  proof (cases "j' = j")
    case True
    with e show ?thesis by simp
  next
    case False
    with le have "i \<le> j'" "j' < j" by simp_all
    from w [OF this] show ?thesis .
  qed
  ultimately show ?thesis using l eq le by (simp add: agree_iff)
qed

lemma rep_ends_transfer:
  assumes mono: "\<And>i j. j \<in> set (step' i) \<Longrightarrow> i \<le> j"
    and tr: "\<And>i' j'. lo \<le> i' \<Longrightarrow> j' \<le> hi \<Longrightarrow> j' \<in> set (step' i') \<Longrightarrow> j' \<in> set (step i')"
  shows "lo \<le> i \<Longrightarrow> j \<le> hi \<Longrightarrow> j \<in> set (rep_ends step' m n i) \<Longrightarrow>
         j \<in> set (rep_ends step m n i)"
proof (induction n arbitrary: m i)
  case 0
  then show ?case by simp
next
  case (Suc n)
  from Suc.prems(3) consider
      (more) i' where "i' \<in> set (step' i)" "j \<in> set (rep_ends step' (m - 1) n i')"
    | (stop) "m = 0" "j = i"
    by (auto split: if_splits)
  then show ?case
  proof cases
    case more
    from mono [OF more(1)] have ii: "i \<le> i'" .
    from rep_ends_mono [of step', OF mono more(2)] have ij: "i' \<le> j" .
    from tr [OF Suc.prems(1) _ more(1)] ij Suc.prems(2) have "i' \<in> set (step i)" by simp
    moreover from Suc.IH [OF _ Suc.prems(2) more(2)] ii Suc.prems(1)
    have "j \<in> set (rep_ends step (m - 1) n i')" by simp
    ultimately show ?thesis by auto
  next
    case stop
    then show ?thesis by simp
  qed
qed

lemma ends_transfer:
  "agree T t' t i j \<Longrightarrow> j \<in> set (ends T t' r i) \<Longrightarrow> j \<in> set (ends T t r i)"
proof (induction r arbitrary: i j)
  case Eps
  then show ?case by simp
next
  case WordB
  then show ?case by (auto simp: agree_iff boundary_def split: if_splits)
next
  case (In items)
  from In.prems(2) have j: "j = Suc i" "i < length t'" "list_ex (in_item T (t' ! i)) items"
    by (auto split: if_splits)
  with In.prems(1) have "t' ! i = t ! i" "i < length t" by (auto simp: agree_iff)
  with j show ?case by simp
next
  case (Cat r s)
  from Cat.prems(2) obtain m where m: "m \<in> set (ends T t' r i)" "j \<in> set (ends T t' s m)"
    by auto
  from ends_mono [OF m(1)] ends_mono [OF m(2)] have le: "i \<le> m" "m \<le> j" .
  from agree_sub [OF Cat.prems(1), of i m] le have "agree T t' t i m" by simp
  from Cat.IH(1) [OF this m(1)] have 1: "m \<in> set (ends T t r i)" .
  from agree_sub [OF Cat.prems(1), of m j] le have "agree T t' t m j" by simp
  from Cat.IH(2) [OF this m(2)] have "j \<in> set (ends T t s m)" .
  with 1 show ?case by auto
next
  case (Alt r s)
  from Alt.prems(2) have "j \<in> set (ends T t' r i) \<or> j \<in> set (ends T t' s i)" by auto
  with Alt.IH Alt.prems(1) show ?case by auto
next
  case (Repeat m n r)
  from Repeat.prems(2) have 1: "j \<in> set (rep_ends (ends T t' r) m n i)" by simp
  have "j \<in> set (rep_ends (ends T t r) m n i)"
  proof (rule rep_ends_transfer [of "ends T t' r" i j "ends T t r", OF ends_mono _ _ _ 1])
    fix i' j'
    assume a: "i \<le> i'" "j' \<le> j" "j' \<in> set (ends T t' r i')"
    from ends_mono [OF a(3)] have "i' \<le> j'" .
    from agree_sub [OF Repeat.prems(1) a(1) this a(2)] have "agree T t' t i' j'" .
    from Repeat.IH [OF this a(3)] show "j' \<in> set (ends T t r i')" .
  qed simp_all
  then show ?case by simp
qed

lemma finditer_complete:
  "i0 \<le> i \<Longrightarrow> i \<le> length t \<Longrightarrow> ends T t r i \<noteq> [] \<Longrightarrow>
   \<exists>sp\<in>set (finditer T r t i0). fst sp \<le> i \<and> (i < snd sp \<or> fst sp = i)"
proof (induction T r t i0 rule: finditer.induct)
  case (1 T r t i0)
  from "1.prems" have nl: "\<not> length t < i0" by simp
  show ?case
  proof (cases "ends T t r i0")
    case Nil
    with "1.prems" have "i0 \<noteq> i" by auto
    with "1.prems" have "Suc i0 \<le> i" by simp
    from "1.IH"(1) [OF nl Nil this "1.prems"(2,3)] show ?thesis
      using nl Nil by (simp add: finditer.simps [of T r t i0])
  next
    case (Cons j js)
    have f: "finditer T r t i0 = (i0, j) # finditer T r t (if i0 < j then j else Suc i0)"
      using nl Cons by (simp add: finditer.simps [of T r t i0])
    show ?thesis
    proof (cases "i0 = i \<or> i < j")
      case True
      with "1.prems"(1) f show ?thesis by auto
    next
      case False
      with "1.prems"(1) have "(if i0 < j then j else Suc i0) \<le> i" by auto
      from "1.IH"(2) [OF nl Cons this "1.prems"(2,3)] f show ?thesis by auto
    qed
  qed
qed

section \<open>The shape of the catalog patterns\<close>

lemma shape_PATTERNS:
  assumes "placeholder_inert T"
  shows "\<forall>r\<in>set PATTERNS. starts_wb r \<and> ends_wb r \<and> \<not> accepts T 60 r \<and> \<not> accepts T 62 r
           \<and> \<not> firsts T 32 r"
proof -
  from assms have p: "\<not> is_digit T 60" "\<not> is_digit T 62" "\<not> is_digit T 32"
    "\<not> is_space T 60" "\<not> is_space T 62"
    "\<And>x. same_letter T 60 x = (x = 60)" "\<And>x. same_letter T 62 x = (x = 62)"
    "\<And>x. same_letter T 32 x = (x = 32)"
    by (simp_all add: placeholder_inert_def plain_def)
  show ?thesis
    by (simp add: PATTERNS_def RAW_PATTERNS_def lit_def times_def opt_def
        digits_def digit_def dash_space_def dot_space_dash_def dash_blank_def ch_def rng_def
        A_Z_def list_ex_iff p)
qed

lemma shape_ordered_regex_patterns:
  assumes "placeholder_inert T"
  shows "\<forall>r\<in>set (map snd ordered_regex_patterns).
           starts_wb r \<and> ends_wb r \<and> \<not> accepts T 60 r \<and> \<not> accepts T 62 r \<and> \<not> firsts T 32 r"
proof -
  from assms have p: "\<not> is_digit T 60" "\<not> is_digit T 62" "\<not> is_digit T 32"
    "\<not> is_space T 60" "\<not> is_space T 62"
    "\<And>x. same_letter T 60 x = (x = 60)" "\<And>x. same_letter T 62 x = (x = 62)"
    "\<And>x. same_letter T 32 x = (x = 32)"
    by (simp_all add: placeholder_inert_def plain_def)
  show ?thesis
    by (simp add: ordered_regex_patterns_def lit_def times_def opt_def
        digits_def digit_def dash_space_def dot_space_dash_def dash_blank_def ch_def rng_def
        A_Z_def list_ex_iff p)
qed

lemma placeholder_inert_ascii: "placeholder_inert ascii_tables"
  by (auto simp: placeholder_inert_def plain_def ascii_tables_def ascii_lower_def)

lemma ljust_default_nth:
  assumes "4 \<le> w" "k < w"
  shows "ljust default_label w ! k
           = (if k = 0 then 60 else if k = 1 then 73 else if k = 2 then 68
              else if k = 3 then 62 else 32)"
proof -
  have l: "ljust default_label w = [60, 73, 68, 62] @ replicate (w - 4) 32"
    by (simp add: ljust_def default_label_def codepoints_def SPACE_def)
  consider "k = 0" | "k = 1" | "k = 2" | "k = 3" | "4 \<le> k" by linarith
  then show ?thesis
  proof cases
    case 5
    then have "\<not> k < 4" "k - 4 < w - 4" using assms by simp_all
    then show ?thesis using 5 unfolding l by (simp add: nth_append)
  qed (simp_all add: l)
qed

lemma spec_selection_keeps:
  assumes "\<forall>a\<in>set xs. \<forall>b\<in>set xs. a = b \<or> covered a \<inter> covered b = {}"
  shows "sp \<in> set xs \<Longrightarrow> covered sp \<inter> occ = {} \<Longrightarrow> sp \<in> set (spec_selection occ xs)"
  using assms
proof (induction xs arbitrary: occ)
  case Nil
  then show ?case by simp
next
  case (Cons a xs)
  have pw: "\<forall>a\<in>set xs. \<forall>b\<in>set xs. a = b \<or> covered a \<inter> covered b = {}"
    using Cons.prems(3) by simp
  show ?case
  proof (cases "sp = a")
    case True
    with Cons.prems(2) show ?thesis by simp
  next
    case False
    with Cons.prems(1) have in_xs: "sp \<in> set xs" by simp
    show ?thesis
    proof (cases "covered a \<inter> occ \<noteq> {}")
      case True
      with Cons.IH [OF in_xs Cons.prems(2) pw] show ?thesis by simp
    next
      case False
      from Cons.prems(3) in_xs \<open>sp \<noteq> a\<close> have "covered sp \<inter> covered a = {}" by auto
      with Cons.prems(2) have "covered sp \<inter> (occ \<union> covered a) = {}" by blast
      from Cons.IH [OF in_xs this pw] False show ?thesis by simp
    qed
  qed
qed

section \<open>Matches in a redacted text\<close>

lemma mask_content:
  assumes m: "masks acc t r1" and sp: "sp \<in> set acc" and w: "fst sp + 4 \<le> snd sp"
  shows "r1 ! fst sp = 60" "r1 ! (fst sp + 3) = 62"
    and "\<And>k. fst sp + 4 \<le> k \<Longrightarrow> k < snd sp \<Longrightarrow> r1 ! k = 32"
    and "\<And>k. fst sp + 3 \<le> k \<Longrightarrow> k < snd sp \<Longrightarrow> r1 ! k = 62 \<or> r1 ! k = 32"
proof -
  have c: "r1 ! k = ljust default_label (snd sp - fst sp) ! (k - fst sp)"
    if "fst sp \<le> k" "k < snd sp" for k
    using m sp that by (simp add: masks_def covered_def)
  have n: "ljust default_label (snd sp - fst sp) ! (k - fst sp)
             = (if k - fst sp = 0 then 60 else if k - fst sp = 1 then 73
                else if k - fst sp = 2 then 68 else if k - fst sp = 3 then 62 else 32)"
    if "fst sp \<le> k" "k < snd sp" for k
    using w that by (intro ljust_default_nth) simp_all
  show "r1 ! fst sp = 60" using c [of "fst sp"] n [of "fst sp"] w by simp
  show "r1 ! (fst sp + 3) = 62" using c [of "fst sp + 3"] n [of "fst sp + 3"] w by simp
  show "r1 ! k = 32" if "fst sp + 4 \<le> k" "k < snd sp" for k
  proof -
    from that have "4 \<le> k - fst sp" "fst sp \<le> k" by simp_all
    with c [of k] n [of k] that show ?thesis by simp
  qed
  show "r1 ! k = 62 \<or> r1 ! k = 32" if "fst sp + 3 \<le> k" "k < snd sp" for k
  proof -
    from that have "3 \<le> k - fst sp" "fst sp \<le> k" by simp_all
    with c [of k] n [of k] that show ?thesis by simp
  qed
qed

lemma candidate_shape:
  assumes "\<forall>r\<in>set pats. shaped T r" and "sp \<in> set (find_all T pats t)"
  shows "fst sp + 4 \<le> snd sp" "snd sp \<le> length t"
    "boundary T t (fst sp)" "boundary T t (snd sp)"
    "\<exists>r\<in>set pats. snd sp \<in> set (ends T t r (fst sp))"
proof -
  from find_all_sound [OF assms(2)] obtain r where
    r: "r \<in> set pats" "snd sp \<in> set (ends T t r (fst sp))" "fst sp \<le> length t" by blast
  with assms(1) have s: "shaped T r" by blast
  from ends_lower [OF r(2)] s show "fst sp + 4 \<le> snd sp" by (simp add: shaped_def)
  from ends_upper [OF r(2) r(3)] show "snd sp \<le> length t" .
  from starts_wb_boundary [OF _ r(2)] s show "boundary T t (fst sp)" by (simp add: shaped_def)
  from ends_wb_boundary [OF _ r(2)] s show "boundary T t (snd sp)" by (simp add: shaped_def)
  from r show "\<exists>r\<in>set pats. snd sp \<in> set (ends T t r (fst sp))" by blast
qed

lemma placeholder_not_rematched:
  assumes inert: "placeholder_inert T"
    and pats: "\<forall>r\<in>set pats. shaped T r"
    and m: "masks acc t r1"
    and acc: "set acc \<subseteq> set (find_all T pats t)"
    and cand: "(i, j) \<in> set (find_all T pats r1)"
    and sp: "sp \<in> set acc"
  shows "covered (i, j) \<inter> covered sp = {}"
proof (rule ccontr)
  assume "covered (i, j) \<inter> covered sp \<noteq> {}"
  then obtain k where "k \<in> covered (i, j)" "k \<in> covered sp" by blast
  then have k: "i \<le> k" "k < j" "fst sp \<le> k" "k < snd sp"
    by (simp_all add: covered_def)
  from find_all_sound [OF cand] obtain r where
    r: "r \<in> set pats" "j \<in> set (ends T r1 r i)" by auto
  with pats have s: "shaped T r" by blast
  from ends_lower [OF r(2)] s have ij: "i + 4 \<le> j" by (simp add: shaped_def)
  from candidate_shape(1) [OF pats] acc sp have w: "fst sp + 4 \<le> snd sp" by blast
  note mc = mask_content [OF m sp w]
  have no: "r1 ! p \<noteq> 60 \<and> r1 ! p \<noteq> 62" if "i \<le> p" "p < j" for p
    using ends_accepts [OF r(2) that] s by (auto simp: shaped_def)
  have 1: "fst sp < i"
  proof (rule ccontr)
    assume "\<not> fst sp < i"
    then have "i \<le> fst sp" "fst sp < j" using k by simp_all
    from no [OF this] mc(1) show False by simp
  qed
  have 2: "fst sp + 4 \<le> i"
  proof (rule ccontr)
    assume "\<not> fst sp + 4 \<le> i"
    then have "i \<le> fst sp + 3" "fst sp + 3 < j" using 1 ij by simp_all
    from no [OF this] mc(2) show False by simp
  qed
  from mc(3) [OF 2] k have "r1 ! i = 32" by simp
  moreover from ends_firsts [OF r(2)] ij have "firsts T (r1 ! i) r" by simp
  ultimately show False using s by (simp add: shaped_def)
qed

lemma rematch_is_old_match:
  assumes inert: "placeholder_inert T"
    and pats: "\<forall>r\<in>set pats. shaped T r"
    and m: "masks acc t r1"
    and acc: "set acc \<subseteq> set (find_all T pats t)"
    and cand: "(i, j) \<in> set (find_all T pats r1)"
  shows "\<exists>sp\<in>set (find_all T pats t). fst sp \<le> i \<and> i < snd sp"
proof -
  from m have len: "length r1 = length t" by (simp add: masks_def)
  from candidate_shape [OF pats cand] obtain r where
    ij: "i + 4 \<le> j" "j \<le> length r1" and bi: "boundary T r1 i" and bj: "boundary T r1 j"
    and r: "r \<in> set pats" "j \<in> set (ends T r1 r i)"
    by auto
  have off: "p \<notin> covered sp" if "sp \<in> set acc" "i \<le> p" "p < j" for sp p
    using placeholder_not_rematched [OF inert pats m acc cand that(1)] that(2,3)
    by (auto simp: covered_def)
  have same: "r1 ! p = t ! p" if "i \<le> p" "p < j" for p
  proof -
    have "p < length t" using that ij len by simp
    moreover have "\<forall>sp\<in>set acc. p \<notin> covered sp" using off that by blast
    ultimately show ?thesis using m by (simp add: masks_def)
  qed
  have wsame: "word_at T r1 p = word_at T t p" if "i \<le> p" "p < j" for p
    using same [OF that] len by (simp add: word_at_def)
  have free: "word_at T r1 p = word_at T t p" if "\<forall>sp\<in>set acc. p \<notin> covered sp" for p
  proof (cases "p < length t")
    case True
    with that m have "r1 ! p = t ! p" by (simp add: masks_def)
    with len show ?thesis by (simp add: word_at_def)
  next
    case False
    with len show ?thesis by (simp add: word_at_def)
  qed
  from inert have nw: "\<not> is_word T 60" "\<not> is_word T 62" "\<not> is_word T 32"
    by (simp_all add: placeholder_inert_def plain_def)
  have before: "(0 < i \<and> word_at T r1 (i - 1)) = (0 < i \<and> word_at T t (i - 1))"
  proof (cases "0 < i \<and> (\<exists>sp\<in>set acc. i - 1 \<in> covered sp)")
    case False
    then show ?thesis using free [of "i - 1"] by auto
  next
    case True
    then obtain sp where sp: "sp \<in> set acc" "i - 1 \<in> covered sp" and i0: "0 < i" by blast
    from off [OF sp(1), of i] ij have "i \<notin> covered sp" by simp
    with sp(2) i0 have e: "snd sp = i" by (auto simp: covered_def)
    from acc sp(1) have c: "sp \<in> set (find_all T pats t)" by blast
    from candidate_shape(1) [OF pats c] have w: "fst sp + 4 \<le> snd sp" .
    from mask_content(4) [OF m sp(1) w, of "i - 1"] e w
    have "r1 ! (i - 1) = 62 \<or> r1 ! (i - 1) = 32" by simp
    with nw have r1w: "\<not> word_at T r1 (i - 1)" by (auto simp: word_at_def)
    have "\<not> word_at T t (i - 1)"
    proof
      assume tw: "word_at T t (i - 1)"
      from candidate_shape(4) [OF pats c] e have "boundary T t i" by simp
      with tw i0 have "\<not> word_at T t i" by (simp add: boundary_def)
      moreover from bi r1w have "word_at T r1 i" by (simp add: boundary_def)
      moreover from wsame [of i] ij have "word_at T r1 i = word_at T t i" by simp
      ultimately show False by simp
    qed
    with r1w show ?thesis by simp
  qed
  have after: "word_at T r1 j = word_at T t j"
  proof (cases "\<exists>sp\<in>set acc. j \<in> covered sp")
    case False
    then show ?thesis using free [of j] by blast
  next
    case True
    then obtain sp where sp: "sp \<in> set acc" "j \<in> covered sp" by blast
    from off [OF sp(1), of "j - 1"] ij have "j - 1 \<notin> covered sp" by simp
    with sp(2) ij have s: "fst sp = j" by (auto simp: covered_def)
    from acc sp(1) have c: "sp \<in> set (find_all T pats t)" by blast
    from candidate_shape(1) [OF pats c] have w: "fst sp + 4 \<le> snd sp" .
    from mask_content(1) [OF m sp(1) w] s have "r1 ! j = 60" by simp
    with nw have r1w: "\<not> word_at T r1 j" by (simp add: word_at_def)
    have "\<not> word_at T t j"
    proof
      assume tw: "word_at T t j"
      from candidate_shape(3) [OF pats c] s have "boundary T t j" by simp
      with tw have "\<not> (0 < j \<and> word_at T t (j - 1))" by (auto simp: boundary_def)
      moreover from bj r1w have "0 < j \<and> word_at T r1 (j - 1)" by (simp add: boundary_def)
      moreover from wsame [of "j - 1"] ij have "word_at T r1 (j - 1) = word_at T t (j - 1)"
        by simp
      ultimately show False by simp
    qed
    with r1w show ?thesis by simp
  qed
  have "agree T r1 t i j" using len same before after by (simp add: agree_iff)
  from ends_transfer [OF this r(2)] have e: "ends T t r i \<noteq> []" by auto
  from finditer_complete [of 0 i t T r] e ij len obtain sp where
    sp: "sp \<in> set (finditer T r t 0)" "fst sp \<le> i" "i < snd sp \<or> fst sp = i"
    by auto
  from sp(1) r(1) have c: "sp \<in> set (find_all T pats t)" by (auto simp: find_all_def)
  from candidate_shape(1) [OF pats c] sp(2,3) have "fst sp \<le> i \<and> i < snd sp" by auto
  with c show ?thesis by blast
qed

lemma nothing_left_to_match:
  assumes inert: "placeholder_inert T"
    and pats: "\<forall>r\<in>set pats. shaped T r"
    and no: "no_overlap (find_all T pats t)"
    and m: "masks (spec_selection {} (sort_key span_key (find_all T pats t))) t r1"
  shows "find_all T pats r1 = []"
proof (rule ccontr)
  let ?cands = "find_all T pats t"
  let ?acc = "spec_selection {} (sort_key span_key ?cands)"
  assume "find_all T pats r1 \<noteq> []"
  then obtain i j where cand: "(i, j) \<in> set (find_all T pats r1)"
    by (cases "find_all T pats r1") auto
  have acc: "set ?acc \<subseteq> set ?cands" using selection_of_candidates by blast
  from rematch_is_old_match [OF inert pats m acc cand] obtain sp where
    sp: "sp \<in> set ?cands" "fst sp \<le> i" "i < snd sp" by blast
  have "\<forall>a\<in>set (sort_key span_key ?cands). \<forall>b\<in>set (sort_key span_key ?cands).
          a = b \<or> covered a \<inter> covered b = {}"
    using no by (simp add: no_overlap_def list_all_iff)
  from spec_selection_keeps [OF this, of sp "{}"] sp(1) have "sp \<in> set ?acc" by simp
  from placeholder_not_rematched [OF inert pats m acc cand this]
  have "covered (i, j) \<inter> covered sp = {}" .
  moreover from candidate_shape(1) [OF pats cand] have "i < j" by simp
  ultimately show False using sp(2,3) by (auto simp: covered_def)
qed

lemma masks_put_label:
  assumes v: "\<forall>sp\<in>set acc. fst sp + 4 \<le> snd sp \<and> snd sp \<le> length t"
    and d: "sorted_wrt (\<lambda>a b. covered a \<inter> covered b = {}) acc"
  shows "masks acc t (fold (put_label default_label) acc t)"
proof -
  have "\<forall>sp\<in>set acc. fst sp + length default_label \<le> snd sp \<and> snd sp \<le> length t"
    using v by (simp add: length_default_label)
  from fold_put_label [OF this]
  have frame: "length (fold (put_label default_label) acc t) = length t"
    "\<forall>k<length t. (\<forall>sp\<in>set acc. k \<notin> covered sp) \<longrightarrow>
        fold (put_label default_label) acc t ! k = t ! k"
    by simp_all
  have inside: "fold (put_label default_label) acc t ! k
                  = ljust default_label (snd sp - fst sp) ! (k - fst sp)"
    if "sp \<in> set acc" "k \<in> covered sp" for sp k
  proof (rule fold_inside [of "{sp. fst sp + 4 \<le> snd sp}" "put_label default_label"
        "\<lambda>sp. ljust default_label (snd sp - fst sp)" acc t, OF _ _ _ _ d that])
    fix sp and cs :: str
    assume a: "sp \<in> {sp. fst sp + 4 \<le> snd sp}" "snd sp \<le> length cs"
    then show "length (put_label default_label sp cs) = length cs
       \<and> (\<forall>k<length cs. k \<notin> covered sp \<longrightarrow> put_label default_label sp cs ! k = cs ! k)"
      using put_label_fits [of sp cs default_label] by (simp add: length_default_label)
    fix k
    assume "k \<in> covered sp"
    with a show "put_label default_label sp cs ! k
                   = ljust default_label (snd sp - fst sp) ! (k - fst sp)"
      using put_label_fits(2) [of sp cs default_label k]
      by (simp add: length_default_label covered_def)
  qed (use v in auto)
  from frame inside show ?thesis by (simp add: masks_def)
qed

lemma masks_escribir:
  assumes v: "\<forall>sp\<in>set acc. fst sp + 4 \<le> snd sp \<and> snd sp \<le> length t"
    and d: "sorted_wrt (\<lambda>a b. covered a \<inter> covered b = {}) acc"
  shows "masks acc t (fold escribir acc t)"
proof -
  have "\<forall>sp\<in>set acc. fst sp \<le> snd sp \<and> snd sp \<le> length t"
    using v by auto
  from fold_escribir [OF this]
  have frame: "length (fold escribir acc t) = length t"
    "\<forall>k<length t. (\<forall>sp\<in>set acc. k \<notin> covered sp) \<longrightarrow> fold escribir acc t ! k = t ! k"
    by simp_all
  have inside: "fold escribir acc t ! k = ljust default_label (snd sp - fst sp) ! (k - fst sp)"
    if "sp \<in> set acc" "k \<in> covered sp" for sp k
  proof (rule fold_inside [of "{sp. fst sp + 4 \<le> snd sp}" escribir
        "\<lambda>sp. ljust default_label (snd sp - fst sp)" acc t, OF _ _ _ _ d that])
    fix sp and cs :: str
    assume a: "sp \<in> {sp. fst sp + 4 \<le> snd sp}" "snd sp \<le> length cs"
    then show "length (escribir sp cs) = length cs
       \<and> (\<forall>k<length cs. k \<notin> covered sp \<longrightarrow> escribir sp cs ! k = cs ! k)"
      using escribir_fits [of sp cs] by simp
    fix k
    assume k: "k \<in> covered sp"
    from a have "take (snd sp - fst sp) (ljust default_label (snd sp - fst sp))
                   = ljust default_label (snd sp - fst sp)"
      by (simp add: length_ljust length_default_label)
    with a k show "escribir sp cs ! k = ljust default_label (snd sp - fst sp) ! (k - fst sp)"
      using escribir_fits(2) [of sp cs k] by (simp add: covered_def)
  qed (use v in auto)
  from frame inside show ?thesis by (simp add: masks_def)
qed

lemma shaped_PATTERNS: "placeholder_inert T \<Longrightarrow> \<forall>r\<in>set PATTERNS. shaped T r"
  using shape_PATTERNS [of T] minlen_PATTERNS by (simp add: shaped_def)

lemma shaped_ordered_regex_patterns:
  "placeholder_inert T \<Longrightarrow> \<forall>r\<in>set (map snd ordered_regex_patterns). shaped T r"
proof -
  assume "placeholder_inert T"
  from shape_ordered_regex_patterns [OF this] minlen_ordered_regex_patterns
  show ?thesis unfolding shaped_def by fastforce
qed

lemma second_call:
  assumes inert: "placeholder_inert T"
    and pats: "\<forall>r\<in>set pats. shaped T r"
    and m: "masks (spec_selection {} (sort_key span_key (find_all T pats t))) t r"
  shows "(\<forall>c\<in>set (find_all T pats r).
            \<forall>sp\<in>set (spec_selection {} (sort_key span_key (find_all T pats t))).
              covered c \<inter> covered sp = {})
         \<and> (no_overlap (find_all T pats t) \<longrightarrow> find_all T pats r = [])"
proof -
  let ?acc = "spec_selection {} (sort_key span_key (find_all T pats t))"
  have acc: "set ?acc \<subseteq> set (find_all T pats t)" using selection_of_candidates by blast
  have "covered c \<inter> covered sp = {}" if "c \<in> set (find_all T pats r)" "sp \<in> set ?acc" for c sp
    using placeholder_not_rematched [OF inert pats m acc, of "fst c" "snd c" sp] that by simp
  moreover have "find_all T pats r = []" if "no_overlap (find_all T pats t)"
    using nothing_left_to_match [OF inert pats that m] .
  ultimately show ?thesis by blast
qed

lemma covered_by_iff:
  "covered_by acc spans \<longleftrightarrow> (\<forall>c\<in>set spans. \<forall>k\<in>covered c. \<exists>sp\<in>set acc. k \<in> covered sp)"
  by (simp add: covered_by_def list_all_iff list_ex_iff covered_def)

lemma nothing_left_when_covered:
  assumes inert: "placeholder_inert T"
    and pats: "\<forall>r\<in>set pats. shaped T r"
    and cov: "covered_by (spec_selection {} (sort_key span_key (find_all T pats t)))
                (find_all T pats t)"
    and m: "masks (spec_selection {} (sort_key span_key (find_all T pats t))) t r1"
  shows "find_all T pats r1 = []"
proof (rule ccontr)
  let ?cands = "find_all T pats t"
  let ?acc = "spec_selection {} (sort_key span_key ?cands)"
  assume "find_all T pats r1 \<noteq> []"
  then obtain i j where cand: "(i, j) \<in> set (find_all T pats r1)"
    by (cases "find_all T pats r1") auto
  have acc: "set ?acc \<subseteq> set ?cands" using selection_of_candidates by blast
  from rematch_is_old_match [OF inert pats m acc cand] obtain c where
    c: "c \<in> set ?cands" "fst c \<le> i" "i < snd c" by blast
  then have "i \<in> covered c" by (simp add: covered_def)
  with cov c(1) obtain sp where sp: "sp \<in> set ?acc" "i \<in> covered sp"
    unfolding covered_by_iff by blast
  from placeholder_not_rematched [OF inert pats m acc cand sp(1)]
  have "covered (i, j) \<inter> covered sp = {}" .
  moreover from candidate_shape(1) [OF pats cand] have "i \<in> covered (i, j)"
    by (simp add: covered_def)
  ultimately show False using sp(2) by blast
qed


lemma second_call_covered:
  assumes inert: "placeholder_inert T"
    and pats: "\<forall>r\<in>set pats. shaped T r"
    and m: "masks (spec_selection {} (sort_key span_key (find_all T pats t))) t r"
  shows "covered_by (spec_selection {} (sort_key span_key (find_all T pats t)))
           (find_all T pats t) \<longrightarrow> find_all T pats r = []"
  using nothing_left_when_covered [OF inert pats _ m] by blast

section \<open>Properties of the redactors\<close>

text \<open>
  C1 (length invariance). With the default placeholder, \<open>replace_identifiers\<close> and
  \<open>reemplazar_identificadores\<close> return, for every text, a text with the same number of
  code points.
\<close>

theorem length_invariance:
  "(\<exists>out. replace_identifiers T t default_label = Some out \<and> length out = length t)
   \<and> (\<exists>out. reemplazar_identificadores T t = Some out \<and> length out = length t)"
  using replace_identifiers_frame [of default_label T t] reemplazar_identificadores_frame [of T t]
  by (auto simp: length_default_label)

theorem length_invariance_witness:
  "replace_identifiers ascii_tables (codepoints ''RUT 1.234.567-8'') default_label
     = Some (codepoints ''RUT <ID>       '')
   \<and> length (codepoints ''RUT <ID>       '') = length (codepoints ''RUT 1.234.567-8'')"
proof -
  have "replace_identifiers ascii_tables (codepoints ''RUT 1.234.567-8'') default_label
          = Some (codepoints ''RUT <ID>       '')"
    by code_simp
  with length_invariance [of ascii_tables "codepoints ''RUT 1.234.567-8''"]
  show ?thesis by auto
qed

text \<open>
  C2 (selection rule). For every text, the list the loop walks is a permutation of the
  candidates ordered by descending length, then ascending start; the spans the loop
  rewrites are those the specification's selection accepts (a span that meets an occupied
  position is discarded, any other is accepted and its positions become occupied); and
  the result is the text with exactly the accepted spans rewritten, a discarded span not
  being written at all. This holds for \<open>replace_identifiers\<close> and for
  \<open>reemplazar_identificadores\<close>.
\<close>

theorem selection_rule:
  "(let spans = find_all T PATTERNS t; ordered = sort_key span_key spans in
      mset ordered = mset spans \<and> sorted_wrt spec_precedes ordered
      \<and> rewritten t spans = Some (spec_selection {} ordered)
      \<and> replace_identifiers T t label
          = Some (fold (put_label label) (spec_selection {} ordered) t))
   \<and> (let spans = find_all T (map snd ordered_regex_patterns) t;
           ordered = sort_key span_key spans in
      mset ordered = mset spans \<and> sorted_wrt spec_precedes ordered
      \<and> rewritten t spans = Some (spec_selection {} ordered)
      \<and> reemplazar_identificadores T t = Some (fold escribir (spec_selection {} ordered) t))"
proof -
  have "sorted_wrt spec_precedes (sort_key span_key (find_all T PATTERNS t))"
    by (rule sorted_spec_precedes) (use candidates_valid in blast)
  moreover have "sorted_wrt spec_precedes
      (sort_key span_key (find_all T (map snd ordered_regex_patterns) t))"
    by (rule sorted_spec_precedes) (use candidatos_valid in blast)
  ultimately show ?thesis
    by (simp add: Let_def rewritten_candidates rewritten_candidatos replace_identifiers_eq
        reemplazar_identificadores_eq)
qed

theorem selection_rule_witness:
  "find_all ascii_tables PATTERNS (codepoints ''20-12345678-1'') = [(3, 13), (0, 13)]
   \<and> sort_key span_key [(3, 13), (0, 13)] = [(0, 13), (3, 13)]
   \<and> spec_precedes (0, 13) (3, 13)
   \<and> rewritten (codepoints ''20-12345678-1'') [(3, 13), (0, 13)] = Some [(0, 13)]
   \<and> replace_identifiers ascii_tables (codepoints ''20-12345678-1'') default_label
       = Some (codepoints ''<ID>         '')"
proof -
  have c: "find_all ascii_tables PATTERNS (codepoints ''20-12345678-1'') = [(3, 13), (0, 13)]"
    by code_simp
  have s: "sort_key span_key [(3, 13), (0, 13)] = [(0, 13), (3, 13)]"
    by code_simp
  have a: "spec_selection {} [(0, 13), (3, 13)] = [(0, 13)]"
    by code_simp
  have w: "fold (put_label default_label) [(0, 13)] (codepoints ''20-12345678-1'')
             = codepoints ''<ID>         ''"
    by code_simp
  note rule = selection_rule [of ascii_tables "codepoints ''20-12345678-1''" default_label,
      unfolded Let_def c s a w]
  from rule have "sorted_wrt spec_precedes [(0, 13), (3, 13)]" by blast
  then have "spec_precedes (0, 13) (3, 13)" by simp
  moreover from rule
  have "rewritten (codepoints ''20-12345678-1'') [(3, 13), (0, 13)] = Some [(0, 13)]" by blast
  moreover from rule
  have "replace_identifiers ascii_tables (codepoints ''20-12345678-1'') default_label
          = Some (codepoints ''<ID>         '')" by blast
  ultimately show ?thesis using c s by blast
qed

text \<open>
  C3 (output decomposition). For every text, the result is the text with the default
  placeholder written over exactly the spans the call rewrites, one after the other; those
  spans are pairwise disjoint; the result has the length of the text; every position
  inside a rewritten span holds the corresponding code point of the placeholder padded
  to the span, and every position outside all rewritten spans holds the code point of the
  text. This holds for \<open>replace_identifiers\<close> with the default placeholder and for
  \<open>reemplazar_identificadores\<close>.
\<close>

theorem output_decomposition:
  "(\<exists>acc out. rewritten t (find_all T PATTERNS t) = Some acc
       \<and> replace_identifiers T t default_label = Some out
       \<and> out = fold (put_label default_label) acc t
       \<and> (\<forall>i j. i < j \<and> j < length acc \<longrightarrow> covered (acc ! i) \<inter> covered (acc ! j) = {})
       \<and> length out = length t
       \<and> (\<forall>sp\<in>set acc. \<forall>k\<in>covered sp.
              out ! k = ljust default_label (snd sp - fst sp) ! (k - fst sp))
       \<and> (\<forall>k<length t. (\<forall>sp\<in>set acc. k \<notin> covered sp) \<longrightarrow> out ! k = t ! k))
   \<and> (\<exists>acc out. rewritten t (find_all T (map snd ordered_regex_patterns) t) = Some acc
       \<and> reemplazar_identificadores T t = Some out
       \<and> out = fold escribir acc t
       \<and> (\<forall>i j. i < j \<and> j < length acc \<longrightarrow> covered (acc ! i) \<inter> covered (acc ! j) = {})
       \<and> length out = length t
       \<and> (\<forall>sp\<in>set acc. \<forall>k\<in>covered sp.
              out ! k = ljust default_label (snd sp - fst sp) ! (k - fst sp))
       \<and> (\<forall>k<length t. (\<forall>sp\<in>set acc. k \<notin> covered sp) \<longrightarrow> out ! k = t ! k))"
proof (intro conjI)
  let ?acc = "spec_selection {} (sort_key span_key (find_all T PATTERNS t))"
  let ?out = "fold (put_label default_label) ?acc t"
  have d: "\<forall>i j. i < j \<and> j < length ?acc \<longrightarrow> covered (?acc ! i) \<inter> covered (?acc ! j) = {}"
    using spec_selection_disjoint [of "{}" "sort_key span_key (find_all T PATTERNS t)"]
    by (simp add: sorted_wrt_iff_nth_less)
  have "\<forall>sp\<in>set ?acc. fst sp + 4 \<le> snd sp \<and> snd sp \<le> length t"
    using selection_of_candidates candidates_PATTERNS by blast
  from masks_put_label [OF this spec_selection_disjoint] have "masks ?acc t ?out" .
  then have m: "length ?out = length t"
    "\<forall>sp\<in>set ?acc. \<forall>k\<in>covered sp.
        ?out ! k = ljust default_label (snd sp - fst sp) ! (k - fst sp)"
    "\<forall>k<length t. (\<forall>sp\<in>set ?acc. k \<notin> covered sp) \<longrightarrow> ?out ! k = t ! k"
    unfolding masks_def by blast+
  from d m rewritten_candidates [of t T] replace_identifiers_eq [of T t default_label]
  show "\<exists>acc out. rewritten t (find_all T PATTERNS t) = Some acc
       \<and> replace_identifiers T t default_label = Some out
       \<and> out = fold (put_label default_label) acc t
       \<and> (\<forall>i j. i < j \<and> j < length acc \<longrightarrow> covered (acc ! i) \<inter> covered (acc ! j) = {})
       \<and> length out = length t
       \<and> (\<forall>sp\<in>set acc. \<forall>k\<in>covered sp.
              out ! k = ljust default_label (snd sp - fst sp) ! (k - fst sp))
       \<and> (\<forall>k<length t. (\<forall>sp\<in>set acc. k \<notin> covered sp) \<longrightarrow> out ! k = t ! k)"
    by blast
next
  let ?pats = "map snd ordered_regex_patterns"
  let ?acc = "spec_selection {} (sort_key span_key (find_all T ?pats t))"
  let ?out = "fold escribir ?acc t"
  have d: "\<forall>i j. i < j \<and> j < length ?acc \<longrightarrow> covered (?acc ! i) \<inter> covered (?acc ! j) = {}"
    using spec_selection_disjoint [of "{}" "sort_key span_key (find_all T ?pats t)"]
    by (simp add: sorted_wrt_iff_nth_less)
  have "\<forall>sp\<in>set ?acc. fst sp + 4 \<le> snd sp \<and> snd sp \<le> length t"
    using selection_of_candidates candidates_ordered_regex_patterns by fastforce
  from masks_escribir [OF this spec_selection_disjoint] have "masks ?acc t ?out" .
  then have m: "length ?out = length t"
    "\<forall>sp\<in>set ?acc. \<forall>k\<in>covered sp.
        ?out ! k = ljust default_label (snd sp - fst sp) ! (k - fst sp)"
    "\<forall>k<length t. (\<forall>sp\<in>set ?acc. k \<notin> covered sp) \<longrightarrow> ?out ! k = t ! k"
    unfolding masks_def by blast+
  from d m rewritten_candidatos [of t T] reemplazar_identificadores_eq [of T t]
  show "\<exists>acc out. rewritten t (find_all T ?pats t) = Some acc
       \<and> reemplazar_identificadores T t = Some out
       \<and> out = fold escribir acc t
       \<and> (\<forall>i j. i < j \<and> j < length acc \<longrightarrow> covered (acc ! i) \<inter> covered (acc ! j) = {})
       \<and> length out = length t
       \<and> (\<forall>sp\<in>set acc. \<forall>k\<in>covered sp.
              out ! k = ljust default_label (snd sp - fst sp) ! (k - fst sp))
       \<and> (\<forall>k<length t. (\<forall>sp\<in>set acc. k \<notin> covered sp) \<longrightarrow> out ! k = t ! k)"
    by blast
qed

theorem output_decomposition_witness:
  "rewritten (codepoints ''P123 P456'') (find_all ascii_tables PATTERNS (codepoints ''P123 P456''))
     = Some [(0, 4), (5, 9)]
   \<and> covered (0, 4) \<inter> covered (5, 9) = {}
   \<and> replace_identifiers ascii_tables (codepoints ''P123 P456'') default_label
       = Some (codepoints ''<ID> <ID>'')
   \<and> fold (put_label default_label) [(0, 4), (5, 9)] (codepoints ''P123 P456'')
       = codepoints ''<ID> <ID>''
   \<and> codepoints ''<ID> <ID>'' ! 6 = ljust default_label (9 - 5) ! (6 - 5)
   \<and> codepoints ''<ID> <ID>'' ! 4 = codepoints ''P123 P456'' ! 4"
proof -
  let ?t = "codepoints ''P123 P456''"
  have r: "rewritten ?t (find_all ascii_tables PATTERNS ?t) = Some [(0, 4), (5, 9)]"
    by code_simp
  have o: "replace_identifiers ascii_tables ?t default_label = Some (codepoints ''<ID> <ID>'')"
    by code_simp
  from output_decomposition [of ?t ascii_tables] r o
  have w: "codepoints ''<ID> <ID>'' = fold (put_label default_label) [(0, 4), (5, 9)] ?t"
    and d: "\<forall>i j. i < j \<and> j < length [(0::nat, 4::nat), (5, 9)] \<longrightarrow>
             covered ([(0, 4), (5, 9)] ! i) \<inter> covered ([(0, 4), (5, 9)] ! j) = {}"
    and i: "\<forall>sp\<in>set [(0, 4), (5, 9)]. \<forall>k\<in>covered sp.
             codepoints ''<ID> <ID>'' ! k = ljust default_label (snd sp - fst sp) ! (k - fst sp)"
    and f: "\<forall>k<length ?t. (\<forall>sp\<in>set [(0, 4), (5, 9)]. k \<notin> covered sp) \<longrightarrow>
             codepoints ''<ID> <ID>'' ! k = ?t ! k"
    by auto
  from d [rule_format, of 0 1] have 1: "covered (0, 4) \<inter> covered (5, 9) = {}" by simp
  from i have "\<forall>k\<in>covered (5, 9).
      codepoints ''<ID> <ID>'' ! k = ljust default_label (snd (5::nat, 9::nat) - fst (5::nat, 9::nat))
        ! (k - fst (5::nat, 9::nat))"
    by simp
  then have 2: "codepoints ''<ID> <ID>'' ! 6 = ljust default_label (9 - 5) ! (6 - 5)"
    by (simp add: covered_def)
  from f [rule_format, of 4]
  have 3: "codepoints ''<ID> <ID>'' ! 4 = ?t ! 4" by (simp add: covered_def codepoints_def)
  from r o w 1 2 3 show ?thesis by simp
qed

text \<open>
  C4 (placeholder fitting). \<open>replace_identifiers\<close> pads the placeholder to the span but
  does not cut it: on the text \<open>P123\<close>, whose only candidate is the span \<open>(0, 4)\<close>, the
  seven-character placeholder \<open><IDENT>\<close> is written whole, and the result is three code
  points longer than the text.
\<close>

theorem placeholder_not_truncated:
  "find_all ascii_tables PATTERNS (codepoints ''P123'') = [(0, 4)]
   \<and> replace_identifiers ascii_tables (codepoints ''P123'') (codepoints ''<IDENT>'')
       = Some (codepoints ''<IDENT>'')
   \<and> length (codepoints ''<IDENT>'') = 7 \<and> length (codepoints ''P123'') = 4"
  by code_simp

text \<open>
  C5 (idempotence), refuted. In \<open>111.222.333-12.345.678-9.123.456-7\<close> the pattern
  \<open>CPF_BRA\<close> matches the span \<open>(0, 14)\<close>, and \<open>CI_URU\<close> and \<open>RUT_CHI\<close> match
  \<open>(12, 24)\<close>, which is shorter, overlaps the first and is discarded; their scan goes on
  at 24, so the match \<open>9.123.456-7\<close> at \<open>(23, 34)\<close> is never a candidate. In the redacted
  text the match at 12 is gone, \<open>(23, 34)\<close> is found, and a second call of
  \<open>replace_identifiers\<close> rewrites it. In the same way a second call of
  \<open>reemplazar_identificadores\<close> on \<open>123.456.789-00-1-2-3\<close> rewrites \<open>1-2-3\<close>, which
  \<open>RUC_PAN\<close> finds only once its discarded match \<open>789-00-1\<close> is gone.
\<close>

theorem idempotence_counterexample:
  "replace_identifiers ascii_tables (codepoints ''111.222.333-12.345.678-9.123.456-7'')
       default_label
     = Some (codepoints ''<ID>          .345.678-9.123.456-7'')
   \<and> replace_identifiers ascii_tables (codepoints ''<ID>          .345.678-9.123.456-7'')
       default_label
     = Some (codepoints ''<ID>          .345.678-<ID>       '')
   \<and> codepoints ''<ID>          .345.678-<ID>       ''
       \<noteq> codepoints ''<ID>          .345.678-9.123.456-7''
   \<and> reemplazar_identificadores ascii_tables (codepoints ''123.456.789-00-1-2-3'')
     = Some (codepoints ''<ID>          -1-2-3'')
   \<and> reemplazar_identificadores ascii_tables (codepoints ''<ID>          -1-2-3'')
     = Some (codepoints ''<ID>          -<ID> '')
   \<and> codepoints ''<ID>          -<ID> '' \<noteq> codepoints ''<ID>          -1-2-3''"
proof -
  have "replace_identifiers ascii_tables (codepoints ''111.222.333-12.345.678-9.123.456-7'')
          default_label
        = Some (codepoints ''<ID>          .345.678-9.123.456-7'')"
    by code_simp
  moreover
  have "replace_identifiers ascii_tables (codepoints ''<ID>          .345.678-9.123.456-7'')
          default_label
        = Some (codepoints ''<ID>          .345.678-<ID>       '')"
    by code_simp
  moreover
  have "codepoints ''<ID>          .345.678-<ID>       ''
          \<noteq> codepoints ''<ID>          .345.678-9.123.456-7''"
    by code_simp
  moreover
  have "reemplazar_identificadores ascii_tables (codepoints ''123.456.789-00-1-2-3'')
          = Some (codepoints ''<ID>          -1-2-3'')"
    by code_simp
  moreover
  have "reemplazar_identificadores ascii_tables (codepoints ''<ID>          -1-2-3'')
          = Some (codepoints ''<ID>          -<ID> '')"
    by code_simp
  moreover
  have "codepoints ''<ID>          -<ID> '' \<noteq> codepoints ''<ID>          -1-2-3''"
    by code_simp
  ultimately show ?thesis by blast
qed

text \<open>
  C5 (idempotence), as amended. Let the tables be such that \<open><\<close>, \<open>>\<close> and the blank are
  not digits and not word characters and are equal under \<open>re.IGNORECASE\<close> to themselves
  only, and \<open><\<close> and \<open>>\<close> are not whitespace. Then for every text: no candidate span of
  the redacted text overlaps a span the call has rewritten, so a placeholder is never
  matched again; and when every position of every candidate span of the text lies inside
  a rewritten span (a discarded candidate lies within the accepted ones), the redacted
  text has no candidate at all and a second call returns it unchanged. This covers the
  texts in which no two different candidates overlap. It holds for \<open>replace_identifiers\<close>
  with the default placeholder and for \<open>reemplazar_identificadores\<close>.
\<close>

theorem idempotence_when_candidates_covered:
  assumes "placeholder_inert T"
  shows "(\<exists>acc r. rewritten t (find_all T PATTERNS t) = Some acc
            \<and> replace_identifiers T t default_label = Some r
            \<and> (\<forall>c\<in>set (find_all T PATTERNS r). \<forall>sp\<in>set acc. covered c \<inter> covered sp = {})
            \<and> (covered_by acc (find_all T PATTERNS t) \<longrightarrow>
                 find_all T PATTERNS r = [] \<and> replace_identifiers T r default_label = Some r)
            \<and> (no_overlap (find_all T PATTERNS t) \<longrightarrow>
                 find_all T PATTERNS r = [] \<and> replace_identifiers T r default_label = Some r))
       \<and> (\<exists>acc r. rewritten t (find_all T (map snd ordered_regex_patterns) t) = Some acc
            \<and> reemplazar_identificadores T t = Some r
            \<and> (\<forall>c\<in>set (find_all T (map snd ordered_regex_patterns) r). \<forall>sp\<in>set acc.
                   covered c \<inter> covered sp = {})
            \<and> (covered_by acc (find_all T (map snd ordered_regex_patterns) t) \<longrightarrow>
                 find_all T (map snd ordered_regex_patterns) r = []
                 \<and> reemplazar_identificadores T r = Some r)
            \<and> (no_overlap (find_all T (map snd ordered_regex_patterns) t) \<longrightarrow>
                 find_all T (map snd ordered_regex_patterns) r = []
                 \<and> reemplazar_identificadores T r = Some r))"
proof (intro conjI)
  let ?acc = "spec_selection {} (sort_key span_key (find_all T PATTERNS t))"
  let ?r = "fold (put_label default_label) ?acc t"
  have "\<forall>sp\<in>set ?acc. fst sp + 4 \<le> snd sp \<and> snd sp \<le> length t"
    using selection_of_candidates candidates_PATTERNS by blast
  from masks_put_label [OF this spec_selection_disjoint] have m: "masks ?acc t ?r" .
  note s = second_call [OF assms shaped_PATTERNS [OF assms] m]
  note c = second_call_covered [OF assms shaped_PATTERNS [OF assms] m]
  have "replace_identifiers T ?r default_label = Some ?r" if "find_all T PATTERNS ?r = []"
    using that by (simp add: replace_identifiers_def replace_spans_def)
  with s c rewritten_candidates [of t T] replace_identifiers_eq [of T t default_label]
  show "\<exists>acc r. rewritten t (find_all T PATTERNS t) = Some acc
            \<and> replace_identifiers T t default_label = Some r
            \<and> (\<forall>c\<in>set (find_all T PATTERNS r). \<forall>sp\<in>set acc. covered c \<inter> covered sp = {})
            \<and> (covered_by acc (find_all T PATTERNS t) \<longrightarrow>
                 find_all T PATTERNS r = [] \<and> replace_identifiers T r default_label = Some r)
            \<and> (no_overlap (find_all T PATTERNS t) \<longrightarrow>
                 find_all T PATTERNS r = [] \<and> replace_identifiers T r default_label = Some r)"
    by blast
next
  let ?pats = "map snd ordered_regex_patterns"
  let ?acc = "spec_selection {} (sort_key span_key (find_all T ?pats t))"
  let ?r = "fold escribir ?acc t"
  have "\<forall>sp\<in>set ?acc. fst sp + 4 \<le> snd sp \<and> snd sp \<le> length t"
    using selection_of_candidates candidates_ordered_regex_patterns by fastforce
  from masks_escribir [OF this spec_selection_disjoint] have m: "masks ?acc t ?r" .
  note s = second_call [OF assms shaped_ordered_regex_patterns [OF assms] m]
  note c = second_call_covered [OF assms shaped_ordered_regex_patterns [OF assms] m]
  have "reemplazar_identificadores T ?r = Some ?r" if "find_all T ?pats ?r = []"
    using that by (simp add: reemplazar_identificadores_def reemplazar_spans_def)
  with s c rewritten_candidatos [of t T] reemplazar_identificadores_eq [of T t]
  show "\<exists>acc r. rewritten t (find_all T ?pats t) = Some acc
            \<and> reemplazar_identificadores T t = Some r
            \<and> (\<forall>c\<in>set (find_all T ?pats r). \<forall>sp\<in>set acc. covered c \<inter> covered sp = {})
            \<and> (covered_by acc (find_all T ?pats t) \<longrightarrow>
                 find_all T ?pats r = [] \<and> reemplazar_identificadores T r = Some r)
            \<and> (no_overlap (find_all T ?pats t) \<longrightarrow>
                 find_all T ?pats r = [] \<and> reemplazar_identificadores T r = Some r)"
    by blast
qed

theorem idempotence_when_candidates_covered_witness:
  "placeholder_inert ascii_tables
   \<and> find_all ascii_tables PATTERNS (codepoints ''CUIT: 20-12345678-1'') = [(9, 19), (6, 19)]
   \<and> rewritten (codepoints ''CUIT: 20-12345678-1'') [(9, 19), (6, 19)] = Some [(6, 19)]
   \<and> covered_by [(6, 19)] [(9, 19), (6, 19)]
   \<and> \<not> no_overlap [(9, 19), (6, 19)]
   \<and> replace_identifiers ascii_tables (codepoints ''CUIT: 20-12345678-1'') default_label
       = Some (codepoints ''CUIT: <ID>         '')
   \<and> replace_identifiers ascii_tables (codepoints ''CUIT: <ID>         '') default_label
       = Some (codepoints ''CUIT: <ID>         '')
   \<and> find_all ascii_tables PATTERNS (codepoints ''P123 P456'') = [(0, 4), (5, 9)]
   \<and> no_overlap [(0, 4), (5, 9)]
   \<and> replace_identifiers ascii_tables (codepoints ''P123 P456'') default_label
       = Some (codepoints ''<ID> <ID>'')
   \<and> replace_identifiers ascii_tables (codepoints ''<ID> <ID>'') default_label
       = Some (codepoints ''<ID> <ID>'')
   \<and> rewritten (codepoints ''123.456.789-00-1-2-3'')
         (find_all ascii_tables (map snd ordered_regex_patterns)
            (codepoints ''123.456.789-00-1-2-3''))
       = Some [(0, 14)]
   \<and> find_all ascii_tables (map snd ordered_regex_patterns)
         (codepoints ''<ID>          -1-2-3'')
       = [(15, 20)]
   \<and> covered (15, 20) \<inter> covered (0, 14) = {}"
proof -
  let ?s = "codepoints ''CUIT: 20-12345678-1''"
  have sc: "find_all ascii_tables PATTERNS ?s = [(9, 19), (6, 19)]"
    by code_simp
  have sa: "rewritten ?s [(9, 19), (6, 19)] = Some [(6, 19)]"
    by code_simp
  have sv: "covered_by [(6, 19)] [(9, 19), (6, 19)]"
    by code_simp
  have sn: "\<not> no_overlap [(9, 19), (6, 19)]"
    by code_simp
  have so: "replace_identifiers ascii_tables ?s default_label
              = Some (codepoints ''CUIT: <ID>         '')"
    unfolding replace_identifiers_def sc by code_simp
  from idempotence_when_candidates_covered [OF placeholder_inert_ascii, of ?s]
  have 0: "replace_identifiers ascii_tables (codepoints ''CUIT: <ID>         '') default_label
          = Some (codepoints ''CUIT: <ID>         '')"
    unfolding sc sa so using sv by auto
  let ?t = "codepoints ''P123 P456''"
  have c: "find_all ascii_tables PATTERNS ?t = [(0, 4), (5, 9)]"
    by code_simp
  have n: "no_overlap [(0, 4), (5, 9)]"
    by (simp add: no_overlap_def covered_def)
  have o: "replace_identifiers ascii_tables ?t default_label = Some (codepoints ''<ID> <ID>'')"
    unfolding replace_identifiers_def c by code_simp
  from idempotence_when_candidates_covered [OF placeholder_inert_ascii, of ?t] c n o
  have 1: "replace_identifiers ascii_tables (codepoints ''<ID> <ID>'') default_label
          = Some (codepoints ''<ID> <ID>'')"
    by auto
  let ?u = "codepoints ''123.456.789-00-1-2-3''"
  have a: "rewritten ?u (find_all ascii_tables (map snd ordered_regex_patterns) ?u)
             = Some [(0, 14)]"
    by code_simp
  have r: "reemplazar_identificadores ascii_tables ?u
             = Some (codepoints ''<ID>          -1-2-3'')"
    by code_simp
  have f: "find_all ascii_tables (map snd ordered_regex_patterns)
             (codepoints ''<ID>          -1-2-3'') = [(15, 20)]"
    by code_simp
  from idempotence_when_candidates_covered [OF placeholder_inert_ascii, of ?u] a r
  have "\<forall>c\<in>set (find_all ascii_tables (map snd ordered_regex_patterns)
                    (codepoints ''<ID>          -1-2-3'')).
          \<forall>sp\<in>set [(0, 14)]. covered c \<inter> covered sp = {}"
    by auto
  then have 2: "covered (15, 20) \<inter> covered (0, 14) = {}"
    unfolding f by simp
  from sc sa sv sn so 0 c n o 1 a f 2 placeholder_inert_ascii show ?thesis by blast
qed

text \<open>
  C6 (longest-match preference and tie-break). For every text whose candidate list holds
  exactly the two spans \<open>(s1, e1)\<close> and \<open>(s2, e2)\<close>, in either order: (a) if the first
  contains the second and is longer, only the first is rewritten; (b) if they are equally
  long and the first ends before the second starts, both are rewritten; (c) if they are
  equally long, overlap, and the first starts first, only the first is rewritten. The
  result is the text with exactly those spans replaced.
\<close>

theorem longest_match_and_tie_break:
  assumes "mset (find_all T PATTERNS t) = {#(s1, e1), (s2, e2)#}"
  shows "(s1 \<le> s2 \<and> e2 \<le> e1 \<and> e2 - s2 < e1 - s1 \<longrightarrow>
            rewritten t (find_all T PATTERNS t) = Some [(s1, e1)]
            \<and> replace_identifiers T t label = Some (put_label label (s1, e1) t))
       \<and> (e1 - s1 = e2 - s2 \<and> e1 \<le> s2 \<longrightarrow>
            rewritten t (find_all T PATTERNS t) = Some [(s1, e1), (s2, e2)]
            \<and> replace_identifiers T t label
                = Some (put_label label (s2, e2) (put_label label (s1, e1) t)))
       \<and> (e1 - s1 = e2 - s2 \<and> s1 < s2 \<and> s2 < e1 \<longrightarrow>
            rewritten t (find_all T PATTERNS t) = Some [(s1, e1)]
            \<and> replace_identifiers T t label = Some (put_label label (s1, e1) t))"
proof -
  let ?cands = "find_all T PATTERNS t"
  from pair_members [OF assms] candidates_valid [of T t]
  have v: "s1 < e1" "s2 < e2" by auto
  have r: "rewritten t ?cands = Some (spec_selection {} (sort_key span_key ?cands))"
    by (rule rewritten_candidates)
  have o: "replace_identifiers T t label
             = Some (fold (put_label label) (spec_selection {} (sort_key span_key ?cands)) t)"
    by (rule replace_identifiers_eq)
  have a: "spec_selection {} (sort_key span_key ?cands) = [(s1, e1)]"
    if "s1 \<le> s2" "e2 \<le> e1" "e2 - s2 < e1 - s1"
  proof -
    have "span_key (s1, e1) \<le> span_key (s2, e2)" using that v by (auto simp: span_key_def)
    from sort_key_pair [OF assms this] show ?thesis using that v by (auto simp: covered_def)
  qed
  have b: "spec_selection {} (sort_key span_key ?cands) = [(s1, e1), (s2, e2)]"
    if "e1 - s1 = e2 - s2" "e1 \<le> s2"
  proof -
    have "span_key (s1, e1) \<le> span_key (s2, e2)" using that v by (auto simp: span_key_def)
    from sort_key_pair [OF assms this] show ?thesis using that v by (auto simp: covered_def)
  qed
  have c: "spec_selection {} (sort_key span_key ?cands) = [(s1, e1)]"
    if "e1 - s1 = e2 - s2" "s1 < s2" "s2 < e1"
  proof -
    have "span_key (s1, e1) \<le> span_key (s2, e2)" using that v by (auto simp: span_key_def)
    from sort_key_pair [OF assms this] show ?thesis using that v by (auto simp: covered_def)
  qed
  show ?thesis using a b c by (simp add: r o)
qed

theorem longest_match_and_tie_break_witness:
  "mset (find_all ascii_tables PATTERNS (codepoints ''20-12345678-1'')) = {#(0, 13), (3, 13)#}
   \<and> replace_identifiers ascii_tables (codepoints ''20-12345678-1'') default_label
       = Some (codepoints ''<ID>         '')
   \<and> mset (find_all ascii_tables PATTERNS (codepoints ''P123 P456'')) = {#(0, 4), (5, 9)#}
   \<and> replace_identifiers ascii_tables (codepoints ''P123 P456'') default_label
       = Some (codepoints ''<ID> <ID>'')
   \<and> mset (find_all ascii_tables PATTERNS (codepoints ''P-111-222-33.444.555-k''))
       = {#(0, 12), (10, 22)#}
   \<and> replace_identifiers ascii_tables (codepoints ''P-111-222-33.444.555-k'') default_label
       = Some (codepoints ''<ID>        .444.555-k'')"
proof -
  have a: "mset (find_all ascii_tables PATTERNS (codepoints ''20-12345678-1''))
             = {#(0, 13), (3, 13)#}"
  proof -
    have "find_all ascii_tables PATTERNS (codepoints ''20-12345678-1'') = [(3, 13), (0, 13)]"
      by code_simp
    then show ?thesis by simp
  qed
  have b: "mset (find_all ascii_tables PATTERNS (codepoints ''P123 P456'')) = {#(0, 4), (5, 9)#}"
  proof -
    have "find_all ascii_tables PATTERNS (codepoints ''P123 P456'') = [(0, 4), (5, 9)]"
      by code_simp
    then show ?thesis by simp
  qed
  have c: "mset (find_all ascii_tables PATTERNS (codepoints ''P-111-222-33.444.555-k''))
             = {#(0, 12), (10, 22)#}"
  proof -
    have "find_all ascii_tables PATTERNS (codepoints ''P-111-222-33.444.555-k'')
            = [(10, 22), (0, 12)]"
      by code_simp
    then show ?thesis by simp
  qed
  have wa: "put_label default_label (0, 13) (codepoints ''20-12345678-1'')
              = codepoints ''<ID>         ''"
    by code_simp
  have wb: "put_label default_label (5, 9) (put_label default_label (0, 4)
              (codepoints ''P123 P456'')) = codepoints ''<ID> <ID>''"
    by code_simp
  have wc: "put_label default_label (0, 12) (codepoints ''P-111-222-33.444.555-k'')
              = codepoints ''<ID>        .444.555-k''"
    by code_simp
  from longest_match_and_tie_break [OF a, of default_label]
  have "replace_identifiers ascii_tables (codepoints ''20-12345678-1'') default_label
          = Some (codepoints ''<ID>         '')"
    unfolding wa by simp
  moreover from longest_match_and_tie_break [OF b, of default_label]
  have "replace_identifiers ascii_tables (codepoints ''P123 P456'') default_label
          = Some (codepoints ''<ID> <ID>'')"
    unfolding wb by simp
  moreover from longest_match_and_tie_break [OF c, of default_label]
  have "replace_identifiers ascii_tables (codepoints ''P-111-222-33.444.555-k'') default_label
          = Some (codepoints ''<ID>        .444.555-k'')"
    unfolding wc by simp
  ultimately show ?thesis using a b c by blast
qed

text \<open>
  C7 (identity on no match and on the empty text). A text in which no pattern of the
  catalog matches at any position is returned unchanged, and the empty text is returned
  empty, by \<open>replace_identifiers\<close> with any placeholder and by
  \<open>reemplazar_identificadores\<close>.
\<close>

theorem identity_on_no_match:
  "(no_match T PATTERNS t \<longrightarrow> replace_identifiers T t label = Some t)
   \<and> (no_match T (map snd ordered_regex_patterns) t \<longrightarrow> reemplazar_identificadores T t = Some t)
   \<and> replace_identifiers T [] label = Some []
   \<and> reemplazar_identificadores T [] = Some []"
proof -
  have "find_all T PATTERNS [] = []"
    by (rule find_all_empty_text) (use minlen_PATTERNS in fastforce)
  moreover have "find_all T (map snd ordered_regex_patterns) [] = []"
    by (rule find_all_empty_text) (use minlen_ordered_regex_patterns in fastforce)
  ultimately show ?thesis
    by (auto simp: replace_identifiers_def reemplazar_identificadores_def replace_spans_def
        reemplazar_spans_def dest: no_match_find_all)
qed

theorem identity_on_no_match_witness:
  "no_match ascii_tables PATTERNS (codepoints ''10.000 pesos'')
   \<and> replace_identifiers ascii_tables (codepoints ''10.000 pesos'') default_label
       = Some (codepoints ''10.000 pesos'')
   \<and> no_match ascii_tables (map snd ordered_regex_patterns) (codepoints ''10.000 pesos'')
   \<and> reemplazar_identificadores ascii_tables (codepoints ''10.000 pesos'')
       = Some (codepoints ''10.000 pesos'')"
proof -
  have a: "no_match ascii_tables PATTERNS (codepoints ''10.000 pesos'')"
    by code_simp
  have b: "no_match ascii_tables (map snd ordered_regex_patterns) (codepoints ''10.000 pesos'')"
    by code_simp
  from identity_on_no_match [of ascii_tables "codepoints ''10.000 pesos''" default_label] a b
  show ?thesis by blast
qed

text \<open>
  C8 (determinism and order independence). The redactors are functions of the text (and
  the placeholder), so two runs agree. Their result depends on the collected candidates
  only through their multiset: any two candidate lists with the same spans, in whatever
  order, give the same result, and so does any enumeration order of the patterns of the
  catalog.
\<close>

theorem order_independence:
  "(mset spans' = mset spans \<longrightarrow>
       replace_spans label t spans' = replace_spans label t spans
       \<and> reemplazar_spans t spans' = reemplazar_spans t spans)
   \<and> (mset pats = mset PATTERNS \<longrightarrow>
       replace_spans label t (find_all T pats t) = replace_identifiers T t label)
   \<and> (mset pats = mset (map snd ordered_regex_patterns) \<longrightarrow>
       reemplazar_spans t (find_all T pats t) = reemplazar_identificadores T t)"
  using replace_spans_cong [of spans' spans label t] reemplazar_spans_cong [of spans' spans t]
    replace_spans_cong [OF mset_find_all, of pats PATTERNS label t T]
    reemplazar_spans_cong [OF mset_find_all, of pats "map snd ordered_regex_patterns" t T]
  by (simp add: replace_identifiers_def reemplazar_identificadores_def)

theorem order_independence_witness:
  "mset [(5, 9), (0, 4)] = mset [(0::nat, 4::nat), (5, 9)]
   \<and> replace_spans default_label (codepoints ''P123 P456'') [(5, 9), (0, 4)]
       = replace_spans default_label (codepoints ''P123 P456'') [(0, 4), (5, 9)]
   \<and> mset (rev PATTERNS) = mset PATTERNS
   \<and> replace_spans default_label (codepoints ''P123 P456'')
         (find_all ascii_tables (rev PATTERNS) (codepoints ''P123 P456''))
       = replace_identifiers ascii_tables (codepoints ''P123 P456'') default_label
   \<and> reemplazar_spans (codepoints ''P123 P456'')
         (find_all ascii_tables (rev (map snd ordered_regex_patterns)) (codepoints ''P123 P456''))
       = reemplazar_identificadores ascii_tables (codepoints ''P123 P456'')"
proof -
  have m: "mset [(5, 9), (0, 4)] = mset [(0::nat, 4::nat), (5, 9)]" by simp
  have p: "mset (rev PATTERNS) = mset PATTERNS"
    "mset (rev (map snd ordered_regex_patterns)) = mset (map snd ordered_regex_patterns)"
    by simp_all
  from order_independence [of "[(5, 9), (0, 4)]" "[(0, 4), (5, 9)]" default_label
      "codepoints ''P123 P456''" "rev PATTERNS" ascii_tables] m p(1)
  have "replace_spans default_label (codepoints ''P123 P456'') [(5, 9), (0, 4)]
       = replace_spans default_label (codepoints ''P123 P456'') [(0, 4), (5, 9)]"
    "replace_spans default_label (codepoints ''P123 P456'')
         (find_all ascii_tables (rev PATTERNS) (codepoints ''P123 P456''))
       = replace_identifiers ascii_tables (codepoints ''P123 P456'') default_label"
    by blast+
  moreover from order_independence [of "[]" "[]" default_label
      "codepoints ''P123 P456''" "rev (map snd ordered_regex_patterns)" ascii_tables] p(2)
  have "reemplazar_spans (codepoints ''P123 P456'')
         (find_all ascii_tables (rev (map snd ordered_regex_patterns)) (codepoints ''P123 P456''))
       = reemplazar_identificadores ascii_tables (codepoints ''P123 P456'')"
    by blast
  ultimately show ?thesis using m p by blast
qed



text \<open>
  C10 (minimum match width). Every candidate span of either catalog is at least four code
  points wide, the length of the default placeholder, so \<open>ljust\<close> of the default
  placeholder to the width of a candidate is exactly that wide, and
  \<open>replace_identifiers\<close>, which does not cut the replacement, keeps the length of the
  text under the default placeholder.
\<close>

theorem minimum_match_width:
  "(\<forall>sp\<in>set (find_all T PATTERNS t) \<union> set (find_all T (map snd ordered_regex_patterns) t).
       fst sp + 4 \<le> snd sp \<and> length default_label = 4
       \<and> length (ljust default_label (snd sp - fst sp)) = snd sp - fst sp)
   \<and> (\<exists>out. replace_identifiers T t default_label = Some out \<and> length out = length t)"
proof -
  have "fst sp + 4 \<le> snd sp \<and> length default_label = 4
          \<and> length (ljust default_label (snd sp - fst sp)) = snd sp - fst sp"
    if "sp \<in> set (find_all T PATTERNS t) \<union> set (find_all T (map snd ordered_regex_patterns) t)"
    for sp
  proof -
    have "fst sp + 4 \<le> snd sp"
      using that candidates_PATTERNS [of sp T t] candidates_ordered_regex_patterns [of sp T t]
      by auto
    then show ?thesis by (simp add: length_default_label length_ljust)
  qed
  moreover have "\<exists>out. replace_identifiers T t default_label = Some out \<and> length out = length t"
    using replace_identifiers_frame [of default_label T t] by (auto simp: length_default_label)
  ultimately show ?thesis by blast
qed

theorem minimum_match_width_witness:
  "(0, 4) \<in> set (find_all ascii_tables PATTERNS (codepoints ''P123''))
   \<and> length (ljust default_label (4 - 0)) = 4 - 0"
proof -
  have "find_all ascii_tables PATTERNS (codepoints ''P123'') = [(0, 4)]"
    by code_simp
  with minimum_match_width [of ascii_tables "codepoints ''P123''"]
  show ?thesis by auto
qed
end
